theory Spec2Isabelle
  imports Main
begin

section \<open>The PTY session manager (pty.ts, the version with persistent sessions)\<close>

text \<open>
  The server is a single-threaded Node.js program: every callback (a WebSocket message,
  a WebSocket close, a chunk of PTY output, the PTY's exit, the continuation of an
  \<^verbatim>\<open>await\<close>) runs to completion before the next one starts. The model is therefore a
  state record and one function per callback; an \<^verbatim>\<open>async\<close> function is cut at
  its \<^verbatim>\<open>await\<close> into the part that runs at once and the continuation, which waits
  in a list of pending continuations until the environment resumes it.

  JavaScript strings are sequences of UTF-16 code units, and \<^verbatim>\<open>length\<close> and
  \<^verbatim>\<open>slice\<close> count code units. A string is modelled as the list of its code units.
\<close>

type_synonym jsstring = "nat list"

definition js :: "string \<Rightarrow> jsstring" where
  "js s = map of_char s"

type_synonym sid = nat
type_synonym cid = nat
type_synonym lid = nat

subsection \<open>Data\<close>

text \<open>
  The messages the server sends: raw PTY output, or a control message. The wire form of
  a control message is the code unit 1 followed by \<^verbatim>\<open>JSON.stringify(msg)\<close>; the
  model keeps the message itself.
\<close>

datatype control =
    Ready
  | Spawned jsstring nat
  | Attached jsstring nat
  | Exited int jsstring
  | ErrorMsg jsstring

datatype frame = Raw jsstring | Control control

text \<open>
  The arguments of \<^verbatim>\<open>pty.resize\<close> are JavaScript numbers (doubles). Those that occur
  here are integers or infinite: \<open>Num v\<close> is the double whose value is the integer \<open>v\<close>,
  \<open>PosInf\<close> and \<open>NegInf\<close> are \<^verbatim>\<open>Infinity\<close> and \<^verbatim>\<open>-Infinity\<close>; NaN is the
  \<open>None\<close> of \<open>number option\<close>.
\<close>

datatype number = Num int | PosInf | NegInf

text \<open>
  The listeners registered on a PTY's two event emitters. \<open>Buffer_output\<close> and
  \<open>Mark_dead\<close> are the closures \<^verbatim>\<open>spawnSession\<close> registers, \<open>Forward c\<close> and
  \<open>Notify c\<close> the closures \<^verbatim>\<open>attach\<close> of connection \<open>c\<close> registers. Every
  closure is a fresh object, so each registration carries an identity of its own; the
  disposable that \<^verbatim>\<open>onData\<close> or \<^verbatim>\<open>onExit\<close> returns removes the listener of
  that identity.
\<close>

datatype data_listener = Buffer_output | Forward cid
datatype exit_listener = Mark_dead | Notify cid
datatype pty_call = Write jsstring | Resize number number
datatype emitter = OnData | OnExit
datatype disposable = Disposable sid emitter lid

record ipty =
  pid :: nat
  onDataL :: "(lid \<times> data_listener) list"
  onExitL :: "(lid \<times> exit_listener) list"
  calls :: "pty_call list"

record session =
  pty :: ipty
  cwd :: jsstring
  buffer :: jsstring
  alive :: bool

text \<open>
  The state of one \<^verbatim>\<open>handleConnection\<close> closure: the socket (whether its
  \<^verbatim>\<open>readyState\<close> is \<^verbatim>\<open>OPEN\<close>, and what has been sent on it), and the two
  local variables.
\<close>

record connection =
  wsOpen :: bool
  sent :: "frame list"
  currentSession :: "sid option"
  disposables :: "disposable list"

text \<open>
  The whole server: the session objects by identity, the global map \<^verbatim>\<open>sessions\<close>
  from cwd to session, the connections, and the \<^verbatim>\<open>selectProject\<close> calls suspended at
  \<^verbatim>\<open>await isDirectory(cwd)\<close>.
\<close>

record server =
  heap :: "sid \<rightharpoonup> session"
  sessions :: "jsstring \<rightharpoonup> sid"
  conns :: "cid \<rightharpoonup> connection"
  pending :: "(cid \<times> jsstring) list"
  nextSid :: nat
  nextLid :: nat

definition init :: server where
  "init = \<lparr>heap = Map.empty, sessions = Map.empty, conns = Map.empty, pending = [],
            nextSid = 0, nextLid = 0\<rparr>"

definition REPLAY_BUFFER_SIZE :: nat where
  "REPLAY_BUFFER_SIZE = 64 * 1024"

subsection \<open>Small state updates\<close>

definition upd_conn :: "cid \<Rightarrow> (connection \<Rightarrow> connection) \<Rightarrow> server \<Rightarrow> server" where
  "upd_conn c f st =
     (case conns st c of None \<Rightarrow> st | Some C \<Rightarrow> st\<lparr>conns := (conns st)(c \<mapsto> f C)\<rparr>)"

definition upd_session :: "sid \<Rightarrow> (session \<Rightarrow> session) \<Rightarrow> server \<Rightarrow> server" where
  "upd_session s f st =
     (case heap st s of None \<Rightarrow> st | Some S \<Rightarrow> st\<lparr>heap := (heap st)(s \<mapsto> f S)\<rparr>)"

text \<open>\<^verbatim>\<open>if (ws.readyState === ws.OPEN) ws.send(x)\<close>\<close>

definition ws_send :: "frame \<Rightarrow> connection \<Rightarrow> connection" where
  "ws_send x C = (if wsOpen C then C\<lparr>sent := sent C @ [x]\<rparr> else C)"

definition sendControl :: "cid \<Rightarrow> control \<Rightarrow> server \<Rightarrow> server" where
  "sendControl c msg st = upd_conn c (ws_send (Control msg)) st"

subsection \<open>The output buffer (the onData listener of spawnSession)\<close>

text \<open>
  \<^verbatim>\<open>session.buffer += data; if (session.buffer.length > REPLAY_BUFFER_SIZE * 1.5)
  session.buffer = session.buffer.slice(-REPLAY_BUFFER_SIZE)\<close>
\<close>

definition slice_last :: "nat \<Rightarrow> jsstring \<Rightarrow> jsstring" where
  "slice_last n b = drop (length b - n) b"

text \<open>
  \<^verbatim>\<open>REPLAY_BUFFER_SIZE * 1.5\<close> is the number 98304; a length exceeds it exactly when
  twice the length exceeds three times the buffer size.
\<close>

definition append_output :: "jsstring \<Rightarrow> jsstring \<Rightarrow> jsstring" where
  "append_output b d =
     (let b' = b @ d
      in if 2 * length b' > 3 * REPLAY_BUFFER_SIZE then slice_last REPLAY_BUFFER_SIZE b' else b')"

subsection \<open>The PTY's event emitters\<close>

text \<open>
  node-pty's emitters keep their listeners in registration order; \<^verbatim>\<open>fire\<close> copies the
  list and calls each listener in turn; a disposable removes the first entry that is its
  listener.
\<close>

fun remove_listener :: "lid \<Rightarrow> (lid \<times> 'a) list \<Rightarrow> (lid \<times> 'a) list" where
  "remove_listener l [] = []"
| "remove_listener l (x # xs) = (if fst x = l then xs else x # remove_listener l xs)"

fun dispose :: "disposable \<Rightarrow> server \<Rightarrow> server" where
  "dispose (Disposable s OnData l) st =
     upd_session s (\<lambda>S. S\<lparr>pty := (pty S)\<lparr>onDataL := remove_listener l (onDataL (pty S))\<rparr>\<rparr>) st"
| "dispose (Disposable s OnExit l) st =
     upd_session s (\<lambda>S. S\<lparr>pty := (pty S)\<lparr>onExitL := remove_listener l (onExitL (pty S))\<rparr>\<rparr>) st"

text \<open>\<^verbatim>\<open>session.pty.onData(listener)\<close> and \<^verbatim>\<open>session.pty.onExit(listener)\<close>: the
  listener is appended under a fresh identity, and the disposable is returned.\<close>

definition onData :: "sid \<Rightarrow> data_listener \<Rightarrow> server \<Rightarrow> disposable \<times> server" where
  "onData s f st =
     (let l = nextLid st
      in (Disposable s OnData l,
          upd_session s (\<lambda>S. S\<lparr>pty := (pty S)\<lparr>onDataL := onDataL (pty S) @ [(l, f)]\<rparr>\<rparr>)
            (st\<lparr>nextLid := Suc l\<rparr>)))"

definition onExit :: "sid \<Rightarrow> exit_listener \<Rightarrow> server \<Rightarrow> disposable \<times> server" where
  "onExit s f st =
     (let l = nextLid st
      in (Disposable s OnExit l,
          upd_session s (\<lambda>S. S\<lparr>pty := (pty S)\<lparr>onExitL := onExitL (pty S) @ [(l, f)]\<rparr>\<rparr>)
            (st\<lparr>nextLid := Suc l\<rparr>)))"

subsection \<open>detach and attach\<close>

text \<open>
  \<^verbatim>\<open>function detach() { for (const d of disposables) d.dispose(); disposables = [];
  currentSession = null; }\<close>
\<close>

definition detach :: "cid \<Rightarrow> server \<Rightarrow> server" where
  "detach c st =
     (case conns st c of
        None \<Rightarrow> st
      | Some C \<Rightarrow>
          upd_conn c (\<lambda>C. C\<lparr>disposables := [], currentSession := None\<rparr>)
            (fold dispose (disposables C) st))"

text \<open>
  \<^verbatim>\<open>function attach(session)\<close>: detach, set \<^verbatim>\<open>currentSession\<close>, then push the
  disposable of a data listener that forwards output to the socket and of an exit
  listener that sends the \<^verbatim>\<open>exited\<close> message and clears \<^verbatim>\<open>currentSession\<close>.
\<close>

definition attach :: "cid \<Rightarrow> sid \<Rightarrow> server \<Rightarrow> server" where
  "attach c s st =
     (let st1 = detach c st;
          st2 = upd_conn c (\<lambda>C. C\<lparr>currentSession := Some s\<rparr>) st1;
          (d1, st3) = onData s (Forward c) st2;
          st4 = upd_conn c (\<lambda>C. C\<lparr>disposables := disposables C @ [d1]\<rparr>) st3;
          (d2, st5) = onExit s (Notify c) st4
      in upd_conn c (\<lambda>C. C\<lparr>disposables := disposables C @ [d2]\<rparr>) st5)"

subsection \<open>spawnSession and selectProject\<close>

text \<open>
  Whether \<^verbatim>\<open>pty.spawn\<close> returns a process (with its pid) or throws is the
  environment's answer.
\<close>

datatype spawn_result = SpawnOk nat | SpawnFails jsstring

text \<open>
  \<^verbatim>\<open>spawnSession(cwd)\<close> when \<^verbatim>\<open>pty.spawn\<close> returned a process with pid \<open>p\<close>: a
  new session object, its two own listeners registered, stored under \<open>k\<close> in
  \<^verbatim>\<open>sessions\<close>. The result is the new session and the new state.
\<close>

definition spawnSession :: "jsstring \<Rightarrow> nat \<Rightarrow> server \<Rightarrow> sid \<times> server" where
  "spawnSession k p st =
     (let s = nextSid st;
          S = \<lparr>pty = \<lparr>pid = p, onDataL = [], onExitL = [], calls = []\<rparr>,
               cwd = k, buffer = [], alive = True\<rparr>;
          st1 = st\<lparr>heap := (heap st)(s \<mapsto> S), nextSid := Suc s\<rparr>;
          (d1, st2) = onData s Buffer_output st1;
          (d2, st3) = onExit s Mark_dead st2
      in (s, st3\<lparr>sessions := (sessions st3)(k \<mapsto> s)\<rparr>))"

text \<open>\<^verbatim>\<open>const existing = sessions.get(cwd); if (existing && existing.alive) ...\<close>\<close>

definition existing_alive :: "server \<Rightarrow> jsstring \<Rightarrow> sid option" where
  "existing_alive st k =
     (case sessions st k of
        None \<Rightarrow> None
      | Some s \<Rightarrow> (case heap st s of
                     None \<Rightarrow> None
                   | Some S \<Rightarrow> if alive S then Some s else None))"

text \<open>\<^verbatim>\<open>if (existing.buffer && ws.readyState === ws.OPEN) ws.send(existing.buffer)\<close>\<close>

definition replay :: "cid \<Rightarrow> sid \<Rightarrow> server \<Rightarrow> server" where
  "replay c s st =
     (case heap st s of
        None \<Rightarrow> st
      | Some S \<Rightarrow> if buffer S \<noteq> [] then upd_conn c (ws_send (Raw (buffer S))) st else st)"

definition pid_of :: "server \<Rightarrow> sid \<Rightarrow> nat" where
  "pid_of st s = (case heap st s of None \<Rightarrow> 0 | Some S \<Rightarrow> pid (pty S))"

text \<open>
  The continuation of \<^verbatim>\<open>selectProject(cwd)\<close> after \<^verbatim>\<open>await isDirectory(cwd)\<close>.
  \<open>isDir\<close> is what \<^verbatim>\<open>isDirectory\<close> resolved to, \<open>sp\<close> what \<^verbatim>\<open>pty.spawn\<close> does
  if it is called. There is no further \<^verbatim>\<open>await\<close>, so the continuation is one step.
\<close>

definition selectProject_resume ::
    "cid \<Rightarrow> jsstring \<Rightarrow> bool \<Rightarrow> spawn_result \<Rightarrow> server \<Rightarrow> server" where
  "selectProject_resume c k isDir sp st =
     (if \<not> isDir then sendControl c (ErrorMsg (js ''Not a valid directory: '' @ k)) st
      else
        (case existing_alive st k of
           Some s \<Rightarrow> sendControl c (Attached k (pid_of st s)) (replay c s (attach c s st))
         | None \<Rightarrow>
             (case sp of
                SpawnFails err \<Rightarrow> sendControl c (ErrorMsg (js ''Failed to start: '' @ err)) st
              | SpawnOk p \<Rightarrow>
                  (let (s, st1) = spawnSession k p st
                   in sendControl c (Spawned k p) (attach c s st1)))))"

text \<open>
  \<^verbatim>\<open>selectProject(cwd)\<close> up to its \<^verbatim>\<open>await\<close>: the call to \<^verbatim>\<open>stat\<close> is started
  and the continuation is suspended.
\<close>

definition selectProject :: "cid \<Rightarrow> jsstring \<Rightarrow> server \<Rightarrow> server" where
  "selectProject c k st = st\<lparr>pending := pending st @ [(c, k)]\<rparr>"

subsection \<open>The message handler\<close>

text \<open>
  \<^verbatim>\<open>payload.replace(/\x1b\[[IO]/g, "")\<close>: one pass from left to right; at each
  position where the three code units ESC (27), \<^verbatim>\<open>[\<close> (91) and \<^verbatim>\<open>I\<close> (73) or
  \<^verbatim>\<open>O\<close> (79) stand, they are dropped and the scan goes on behind them.
\<close>

fun filter_input :: "jsstring \<Rightarrow> jsstring" where
  "filter_input (a # b # c # us) =
     (if a = 27 \<and> b = 91 \<and> (c = 73 \<or> c = 79) then filter_input us
      else a # filter_input (b # c # us))"
| "filter_input us = us"

text \<open>\<^verbatim>\<open>payload.split(",")\<close>: the fields between the commas (44); never empty.\<close>

fun split_comma :: "jsstring \<Rightarrow> jsstring list" where
  "split_comma [] = [[]]"
| "split_comma (u # us) =
     (if u = 44 then [] # split_comma us
      else (case split_comma us of [] \<Rightarrow> [[u]] | p # ps \<Rightarrow> (u # p) # ps))"

text \<open>\<^verbatim>\<open>parts[i]\<close>: \<^verbatim>\<open>undefined\<close> (here \<open>None\<close>) beyond the end of the array.\<close>

definition index :: "'a list \<Rightarrow> nat \<Rightarrow> 'a option" where
  "index xs i = (if i < length xs then Some (xs ! i) else None)"

text \<open>
  \<^verbatim>\<open>parseInt(x, 10)\<close>. The argument is converted to a string (\<^verbatim>\<open>undefined\<close> becomes
  the text "undefined", which has no digit); leading white space is skipped, one sign is
  read, and the longest run of decimal digits that follows is the value; with no digit
  the result is NaN (here \<open>None\<close>). Whatever follows the digits is ignored. The result
  is a double: the integer the digits denote, rounded to the nearest double (ties to the
  even significand) when it needs more than 53 bits, and \<^verbatim>\<open>Infinity\<close> when the
  rounded value reaches \<open>2 ^ 1024\<close>.
\<close>

definition is_ws :: "nat \<Rightarrow> bool" where
  "is_ws u \<longleftrightarrow>
     u \<in> {9, 10, 11, 12, 13, 32, 160, 5760, 8232, 8233, 8239, 8287, 12288, 65279}
     \<or> (8192 \<le> u \<and> u \<le> 8202)"

definition is_digit :: "nat \<Rightarrow> bool" where
  "is_digit u \<longleftrightarrow> 48 \<le> u \<and> u \<le> 57"

fun digits_value :: "int \<Rightarrow> jsstring \<Rightarrow> int" where
  "digits_value acc [] = acc"
| "digits_value acc (u # us) = digits_value (10 * acc + (int u - 48)) us"

text \<open>The number of binary digits of a positive integer.\<close>

function bitlen :: "int \<Rightarrow> nat" where
  "bitlen n = (if n \<le> 0 then 0 else Suc (bitlen (n div 2)))"
  by pat_completeness auto
termination
  by (relation "measure nat") auto

declare bitlen.simps [simp del]

text \<open>
  The double nearest to the integer \<open>n \<ge> 0\<close>. Up to 53 bits it is \<open>n\<close> itself. Beyond,
  the lowest \<open>e\<close> bits are rounded away: \<open>q\<close> is the 53-bit significand, \<open>r\<close> what is cut
  off, and the significand goes up when \<open>r\<close> is more than half a unit, or exactly half
  a unit and \<open>q\<close> is odd.
\<close>

definition to_double :: "int \<Rightarrow> number" where
  "to_double n =
     (if bitlen n \<le> 53 then Num n
      else
        (let e = bitlen n - 53;
             q = n div 2 ^ e;
             r = n mod 2 ^ e;
             h = 2 ^ (e - 1);
             q' = (if r > h \<or> (r = h \<and> odd q) then q + 1 else q);
             v = q' * 2 ^ e
         in if v \<ge> 2 ^ 1024 then PosInf else Num v))"

fun negate :: "number \<Rightarrow> number" where
  "negate (Num v) = Num (- v)"
| "negate PosInf = NegInf"
| "negate NegInf = PosInf"

definition parseInt :: "jsstring option \<Rightarrow> number option" where
  "parseInt x =
     (case x of
        None \<Rightarrow> None
      | Some str \<Rightarrow>
          (let t = dropWhile is_ws str;
               neg = (t \<noteq> [] \<and> hd t = 45);
               r = (if t \<noteq> [] \<and> (hd t = 43 \<or> hd t = 45) then tl t else t);
               z = takeWhile is_digit r
           in if z = [] then None
              else Some (if neg then negate (to_double (digits_value 0 z))
                         else to_double (digits_value 0 z))))"

text \<open>\<^verbatim>\<open>cols > 0\<close>, false for NaN.\<close>

fun positive :: "number option \<Rightarrow> bool" where
  "positive None = False"
| "positive (Some (Num v)) = (v > 0)"
| "positive (Some PosInf) = True"
| "positive (Some NegInf) = False"

text \<open>\<^verbatim>\<open>currentSession?.alive\<close>: the attached session, if there is one and it is alive.\<close>

definition current_alive :: "server \<Rightarrow> cid \<Rightarrow> sid option" where
  "current_alive st c =
     (case conns st c of
        None \<Rightarrow> None
      | Some C \<Rightarrow>
          (case currentSession C of
             None \<Rightarrow> None
           | Some s \<Rightarrow> (case heap st s of
                          None \<Rightarrow> None
                        | Some S \<Rightarrow> if alive S then Some s else None)))"

text \<open>\<^verbatim>\<open>pty.write(x)\<close> and \<^verbatim>\<open>pty.resize(cols, rows)\<close>: the call is recorded.\<close>

definition call_pty :: "sid \<Rightarrow> pty_call \<Rightarrow> server \<Rightarrow> server" where
  "call_pty s x st = upd_session s (\<lambda>S. S\<lparr>pty := (pty S)\<lparr>calls := calls (pty S) @ [x]\<rparr>\<rparr>) st"

definition on_input :: "cid \<Rightarrow> jsstring \<Rightarrow> server \<Rightarrow> server" where
  "on_input c payload st =
     (case current_alive st c of
        None \<Rightarrow> st
      | Some s \<Rightarrow>
          (let filtered = filter_input payload
           in if filtered \<noteq> [] then call_pty s (Write filtered) st else st))"

definition on_resize :: "cid \<Rightarrow> jsstring \<Rightarrow> server \<Rightarrow> server" where
  "on_resize c payload st =
     (let parts = split_comma payload;
          cols = parseInt (index parts 0);
          rows = parseInt (index parts 1)
      in case current_alive st c of
           None \<Rightarrow> st
         | Some s \<Rightarrow>
             if positive cols \<and> positive rows
             then call_pty s (Resize (the cols) (the rows)) st else st)"

text \<open>
  \<^verbatim>\<open>const { cwd } = JSON.parse(payload)\<close> is taken as a parameter \<open>J\<close> of the handler:
  \<open>J payload\<close> is \<open>None\<close> when \<^verbatim>\<open>JSON.parse\<close> or the destructuring throws, and
  the value of \<^verbatim>\<open>cwd\<close> otherwise, the empty string standing for every falsy value.
\<close>

definition on_select :: "(jsstring \<Rightarrow> jsstring option) \<Rightarrow> cid \<Rightarrow> jsstring \<Rightarrow> server \<Rightarrow> server" where
  "on_select J c payload st =
     (case J payload of
        None \<Rightarrow> st
      | Some k \<Rightarrow> if k \<noteq> [] then selectProject c k (detach c st) else st)"

definition on_message :: "(jsstring \<Rightarrow> jsstring option) \<Rightarrow> cid \<Rightarrow> jsstring \<Rightarrow> server \<Rightarrow> server" where
  "on_message J c msg st =
     (case msg of
        [] \<Rightarrow> st
      | prefix # payload \<Rightarrow>
          if prefix = 48 then on_input c payload st
          else if prefix = 49 then on_resize c payload st
          else if prefix = 50 then on_select J c payload st
          else st)"

subsection \<open>The PTY's events\<close>

text \<open>The two listeners on output: the session's own, and a connection's.\<close>

fun call_data_listener :: "sid \<Rightarrow> jsstring \<Rightarrow> data_listener \<Rightarrow> server \<Rightarrow> server" where
  "call_data_listener s d Buffer_output st = upd_session s (\<lambda>S. S\<lparr>buffer := append_output (buffer S) d\<rparr>) st"
| "call_data_listener s d (Forward c) st = upd_conn c (ws_send (Raw d)) st"

text \<open>
  The two listeners on exit. The session's own marks it dead and deletes the entry of
  its cwd from \<^verbatim>\<open>sessions\<close>; a connection's sends \<^verbatim>\<open>exited\<close> with the exit code
  and the session's cwd, and clears \<^verbatim>\<open>currentSession\<close>.
\<close>

fun call_exit_listener :: "sid \<Rightarrow> jsstring \<Rightarrow> int \<Rightarrow> exit_listener \<Rightarrow> server \<Rightarrow> server" where
  "call_exit_listener s k code Mark_dead st =
     (upd_session s (\<lambda>S. S\<lparr>alive := False\<rparr>) st)\<lparr>sessions := (sessions st)(k := None)\<rparr>"
| "call_exit_listener s k code (Notify c) st =
     upd_conn c (\<lambda>C. C\<lparr>currentSession := None\<rparr>) (sendControl c (Exited code k) st)"

definition pty_data :: "sid \<Rightarrow> jsstring \<Rightarrow> server \<Rightarrow> server" where
  "pty_data s d st =
     (case heap st s of
        None \<Rightarrow> st
      | Some S \<Rightarrow> fold (call_data_listener s d) (map snd (onDataL (pty S))) st)"

text \<open>A PTY emits its exit event once: the event of a session already dead does not occur.\<close>

definition pty_exit :: "sid \<Rightarrow> int \<Rightarrow> server \<Rightarrow> server" where
  "pty_exit s code st =
     (case heap st s of
        None \<Rightarrow> st
      | Some S \<Rightarrow>
          if alive S then fold (call_exit_listener s (cwd S) code) (map snd (onExitL (pty S))) st
          else st)"

subsection \<open>Connections and the event loop\<close>

text \<open>\<^verbatim>\<open>handleConnection(ws)\<close>: fresh local variables, and the \<^verbatim>\<open>ready\<close> message.\<close>

definition handleConnection :: "cid \<Rightarrow> server \<Rightarrow> server" where
  "handleConnection c st =
     sendControl c Ready
       (st\<lparr>conns := (conns st)(c \<mapsto>
          \<lparr>wsOpen = True, sent = [], currentSession = None, disposables = []\<rparr>)\<rparr>)"

text \<open>\<^verbatim>\<open>ws.on("close", () => { detach(); })\<close>; the socket is no longer open.\<close>

definition on_close :: "cid \<Rightarrow> server \<Rightarrow> server" where
  "on_close c st = detach c (upd_conn c (\<lambda>C. C\<lparr>wsOpen := False\<rparr>) st)"

text \<open>
  The \<open>n\<close>-th suspended \<^verbatim>\<open>selectProject\<close> resumes: \<^verbatim>\<open>isDirectory\<close> has resolved to
  \<open>isDir\<close>.
\<close>

definition resume :: "nat \<Rightarrow> bool \<Rightarrow> spawn_result \<Rightarrow> server \<Rightarrow> server" where
  "resume n isDir sp st =
     (if n < length (pending st)
      then (let (c, k) = pending st ! n
            in selectProject_resume c k isDir sp
                 (st\<lparr>pending := take n (pending st) @ drop (Suc n) (pending st)\<rparr>))
      else st)"

text \<open>
  The events of the event loop. Every WebSocket is accepted once, and its message and
  close handlers exist only after \<^verbatim>\<open>handleConnection\<close> has registered them, so an
  event that names a socket is ignored unless that holds.
\<close>

datatype event =
    Connection cid
  | Message cid jsstring
  | Close cid
  | StatDone nat bool spawn_result
  | PtyData sid jsstring
  | PtyExit sid int

fun step :: "(jsstring \<Rightarrow> jsstring option) \<Rightarrow> event \<Rightarrow> server \<Rightarrow> server" where
  "step J (Connection c) st = (if conns st c = None then handleConnection c st else st)"
| "step J (Message c msg) st = (if conns st c = None then st else on_message J c msg st)"
| "step J (Close c) st = (if conns st c = None then st else on_close c st)"
| "step J (StatDone n isDir sp) st = resume n isDir sp st"
| "step J (PtyData s d) st = pty_data s d st"
| "step J (PtyExit s code) st = pty_exit s code st"

definition run :: "(jsstring \<Rightarrow> jsstring option) \<Rightarrow> event list \<Rightarrow> server \<Rightarrow> server" where
  "run J es st = fold (step J) es st"

subsection \<open>Well-formed states\<close>

text \<open>
  What holds of every state the server reaches: listener identities are unique, every
  session keeps its own two listeners in front, every listener of a connection is named
  by one of that connection's disposables and the other way round, a connection whose
  listeners are registered has that session as its current one until the session has
  exited, the map
  \<^verbatim>\<open>sessions\<close> holds exactly the sessions that are alive, each under its cwd, and no
  buffer is longer than one and a half times the buffer size.
\<close>

definition lids_ok :: "nat \<Rightarrow> (lid \<times> 'a) list \<Rightarrow> bool" where
  "lids_ok n xs \<longleftrightarrow> distinct (map fst xs) \<and> (\<forall>x \<in> set xs. fst x < n)"

definition session_ok :: "server \<Rightarrow> sid \<Rightarrow> session \<Rightarrow> bool" where
  "session_ok st s S \<longleftrightarrow>
     s < nextSid st
     \<and> lids_ok (nextLid st) (onDataL (pty S))
     \<and> lids_ok (nextLid st) (onExitL (pty S))
     \<and> (\<exists>l xs. onDataL (pty S) = (l, Buffer_output) # xs \<and> (\<forall>x \<in> set xs. snd x \<noteq> Buffer_output))
     \<and> (\<exists>l xs. onExitL (pty S) = (l, Mark_dead) # xs \<and> (\<forall>x \<in> set xs. snd x \<noteq> Mark_dead))
     \<and> (\<forall>l c. (l, Forward c) \<in> set (onDataL (pty S)) \<longrightarrow>
           (\<exists>C. conns st c = Some C \<and> Disposable s OnData l \<in> set (disposables C)))
     \<and> (\<forall>l c. (l, Notify c) \<in> set (onExitL (pty S)) \<longrightarrow>
           (\<exists>C. conns st c = Some C \<and> Disposable s OnExit l \<in> set (disposables C)))
     \<and> (alive S \<longrightarrow> sessions st (cwd S) = Some s)
     \<and> 2 * length (buffer S) \<le> 3 * REPLAY_BUFFER_SIZE"

definition conn_ok :: "server \<Rightarrow> cid \<Rightarrow> connection \<Rightarrow> bool" where
  "conn_ok st c C \<longleftrightarrow>
     (disposables C = [] \<and> currentSession C = None)
     \<or> (\<exists>s l1 l2 S.
           disposables C = [Disposable s OnData l1, Disposable s OnExit l2]
           \<and> heap st s = Some S
           \<and> (l1, Forward c) \<in> set (onDataL (pty S))
           \<and> (l2, Notify c) \<in> set (onExitL (pty S))
           \<and> (currentSession C = Some s \<or> (currentSession C = None \<and> \<not> alive S)))"

definition wf :: "server \<Rightarrow> bool" where
  "wf st \<longleftrightarrow>
     (\<forall>s S. heap st s = Some S \<longrightarrow> session_ok st s S)
     \<and> (\<forall>c C. conns st c = Some C \<longrightarrow> conn_ok st c C)
     \<and> (\<forall>k s. sessions st k = Some s \<longrightarrow> (\<exists>S. heap st s = Some S \<and> cwd S = k \<and> alive S))
     \<and> (\<forall>x \<in> set (pending st). conns st (fst x) \<noteq> None)"

text \<open>A session without the listeners of connection \<open>c\<close>, and with them.\<close>

definition unsubscribe :: "cid \<Rightarrow> session \<Rightarrow> session" where
  "unsubscribe c S =
     S\<lparr>pty := (pty S)\<lparr>onDataL := filter (\<lambda>x. snd x \<noteq> Forward c) (onDataL (pty S)),
                        onExitL := filter (\<lambda>x. snd x \<noteq> Notify c) (onExitL (pty S))\<rparr>\<rparr>"

definition subscribe :: "cid \<Rightarrow> lid \<Rightarrow> session \<Rightarrow> session" where
  "subscribe c l S =
     S\<lparr>pty := (pty S)\<lparr>onDataL := onDataL (pty S) @ [(l, Forward c)],
                        onExitL := onExitL (pty S) @ [(Suc l, Notify c)]\<rparr>\<rparr>"

text \<open>The session object that \<^verbatim>\<open>spawnSession\<close> builds, its own listeners registered.\<close>

definition new_session :: "jsstring \<Rightarrow> nat \<Rightarrow> lid \<Rightarrow> session" where
  "new_session k p l =
     \<lparr>pty = \<lparr>pid = p, onDataL = [(l, Buffer_output)], onExitL = [(Suc l, Mark_dead)], calls = []\<rparr>,
      cwd = k, buffer = [], alive = True\<rparr>"


subsection \<open>Concrete states\<close>

text \<open>
  A stand-in for \<^verbatim>\<open>JSON.parse\<close> in the examples: the payload is taken to be the cwd.
\<close>

definition payload_is_cwd :: "jsstring \<Rightarrow> jsstring option" where
  "payload_is_cwd p = Some p"

text \<open>
  The state after connection 0 selected \<^verbatim>\<open>/a\<close>, a process with pid 77 was spawned
  for it and wrote \<^verbatim>\<open>hello\<close>.
\<close>

definition demo_session :: session where
  "demo_session =
     \<lparr>pty = \<lparr>pid = 77, onDataL = [(0, Buffer_output), (2, Forward 0)],
             onExitL = [(1, Mark_dead), (3, Notify 0)], calls = []\<rparr>,
      cwd = js ''/a'', buffer = js ''hello'', alive = True\<rparr>"

definition demo_conn :: connection where
  "demo_conn =
     \<lparr>wsOpen = True, sent = [Control Ready, Control (Spawned (js ''/a'') 77), Raw (js ''hello'')],
      currentSession = Some 0, disposables = [Disposable 0 OnData 2, Disposable 0 OnExit 3]\<rparr>"

definition demo_attached :: server where
  "demo_attached =
     \<lparr>heap = [0 \<mapsto> demo_session], sessions = [js ''/a'' \<mapsto> 0], conns = [0 \<mapsto> demo_conn],
      pending = [], nextSid = 1, nextLid = 4\<rparr>"

text \<open>
  The state after connection 0 was closed, connection 1 was accepted and sent a select
  frame for \<^verbatim>\<open>/a\<close>, whose \<^verbatim>\<open>selectProject\<close> is suspended.
\<close>

definition demo_session_alone :: session where
  "demo_session_alone =
     \<lparr>pty = \<lparr>pid = 77, onDataL = [(0, Buffer_output)], onExitL = [(1, Mark_dead)], calls = []\<rparr>,
      cwd = js ''/a'', buffer = js ''hello'', alive = True\<rparr>"


definition demo_conn_new :: connection where
  "demo_conn_new = \<lparr>wsOpen = True, sent = [Control Ready], currentSession = None, disposables = []\<rparr>"


text \<open>
  The state in which connections 0 and 1 have both sent a select frame for \<^verbatim>\<open>/b\<close>,
  for which there is no session, and both calls are suspended.
\<close>

definition demo_two_selects :: server where
  "demo_two_selects =
     \<lparr>heap = Map.empty, sessions = Map.empty,
      conns = [0 \<mapsto> demo_conn_new, 1 \<mapsto> demo_conn_new],
      pending = [(0, js ''/b''), (1, js ''/b'')], nextSid = 0, nextLid = 0\<rparr>"

subsection \<open>Notions of the specification\<close>

text \<open>
  The escape sequences that switch bracketed paste mode on and off
  (\<^verbatim>\<open>ESC [ ? 2 0 0 4 h\<close> and \<^verbatim>\<open>ESC [ ? 2 0 0 4 l\<close>), and the reports a terminal
  sends when it gains or loses focus (\<^verbatim>\<open>ESC [ I\<close> and \<^verbatim>\<open>ESC [ O\<close>).
\<close>

definition paste_mode_on :: jsstring where
  "paste_mode_on = 27 # js ''[?2004h''"

definition paste_mode_off :: jsstring where
  "paste_mode_off = 27 # js ''[?2004l''"

definition focus_report :: "jsstring \<Rightarrow> bool" where
  "focus_report x \<longleftrightarrow> x = [27, 91, 73] \<or> x = [27, 91, 79]"

definition has_focus_report :: "jsstring \<Rightarrow> bool" where
  "has_focus_report p \<longleftrightarrow> (\<exists>xs x ys. p = xs @ x @ ys \<and> focus_report x)"


text \<open>
  The number of bytes of a string in UTF-8, the encoding in which the output of a PTY is
  read and a text frame is sent: one to three bytes for a code unit that is a character
  of its own, and four bytes for a surrogate pair, counted as two for each half.
\<close>

definition unit_bytes :: "nat \<Rightarrow> nat" where
  "unit_bytes u =
     (if u < 128 then 1 else if u < 2048 then 2
      else if 55296 \<le> u \<and> u < 57344 then 2 else 3)"

definition utf8_length :: "jsstring \<Rightarrow> nat" where
  "utf8_length b = sum_list (map unit_bytes b)"

text \<open>
  A field of a resize frame that begins with a positive number: optional white space, an
  optional plus sign, then a run of decimal digits, as long as it goes, whose value is
  not zero; whatever follows the digits is not looked at. \<open>n\<close> is the double of that
  value. A missing field begins with nothing.
\<close>

definition begins_with_positive :: "jsstring option \<Rightarrow> number \<Rightarrow> bool" where
  "begins_with_positive x n \<longleftrightarrow>
     (\<exists>ws sg ds rest.
        x = Some (ws @ sg @ ds @ rest)
        \<and> (\<forall>u \<in> set ws. is_ws u) \<and> (sg = [] \<or> sg = [43])
        \<and> ds \<noteq> [] \<and> (\<forall>u \<in> set ds. is_digit u) \<and> (rest = [] \<or> \<not> is_digit (hd rest))
        \<and> digits_value 0 ds > 0 \<and> n = to_double (digits_value 0 ds))"


text \<open>
  Session \<open>S'\<close> is session \<open>S\<close> except that the listeners of connection \<open>c\<close> are gone:
  same process, same calls made on it, same cwd, same buffer, same liveness, and every
  other listener still registered, in the same order.
\<close>

definition unsubscribed_only :: "cid \<Rightarrow> session \<Rightarrow> session \<Rightarrow> bool" where
  "unsubscribed_only c S S' \<longleftrightarrow>
     alive S' = alive S \<and> buffer S' = buffer S \<and> cwd S' = cwd S
     \<and> pid (pty S') = pid (pty S) \<and> calls (pty S') = calls (pty S)
     \<and> onDataL (pty S') = filter (\<lambda>x. snd x \<noteq> Forward c) (onDataL (pty S))
     \<and> onExitL (pty S') = filter (\<lambda>x. snd x \<noteq> Notify c) (onExitL (pty S))"

text \<open>
  State \<open>st'\<close> differs from \<open>st\<close> in its sessions only by the listeners of connection
  \<open>c\<close>: \<^verbatim>\<open>sessions\<close> is the same map, no session object is added or lost, and each
  is as before but for those listeners.
\<close>

definition only_unsubscribes :: "cid \<Rightarrow> server \<Rightarrow> server \<Rightarrow> bool" where
  "only_unsubscribes c st st' \<longleftrightarrow>
     sessions st' = sessions st
     \<and> (\<forall>s. case heap st s of
              None \<Rightarrow> heap st' s = None
            | Some S \<Rightarrow> (\<exists>S'. heap st' s = Some S' \<and> unsubscribed_only c S S'))"

section \<open>Lemmas\<close>

subsection \<open>Projections of the small updates; the buffer\<close>

lemma heap_upd_conn [simp]: "heap (upd_conn c f st) = heap st"
  and sessions_upd_conn [simp]: "sessions (upd_conn c f st) = sessions st"
  and pending_upd_conn [simp]: "pending (upd_conn c f st) = pending st"
  and nextSid_upd_conn [simp]: "nextSid (upd_conn c f st) = nextSid st"
  and nextLid_upd_conn [simp]: "nextLid (upd_conn c f st) = nextLid st"
  by (simp_all add: upd_conn_def split: option.splits)

lemma conns_upd_conn [simp]:
  "conns (upd_conn c f st) c' = (if c' = c then map_option f (conns st c) else conns st c')"
  by (simp add: upd_conn_def split: option.splits)

lemma conns_upd_session [simp]: "conns (upd_session s f st) = conns st"
  and sessions_upd_session [simp]: "sessions (upd_session s f st) = sessions st"
  and pending_upd_session [simp]: "pending (upd_session s f st) = pending st"
  and nextSid_upd_session [simp]: "nextSid (upd_session s f st) = nextSid st"
  and nextLid_upd_session [simp]: "nextLid (upd_session s f st) = nextLid st"
  by (simp_all add: upd_session_def split: option.splits)

lemma heap_upd_session [simp]:
  "heap (upd_session s f st) s' = (if s' = s then map_option f (heap st s) else heap st s')"
  by (simp add: upd_session_def split: option.splits)

lemma length_slice_last: "length (slice_last n b) = min n (length b)"
  by (simp add: slice_last_def)

lemma take_slice_last: "take (length b - n) b @ slice_last n b = b"
  by (simp add: slice_last_def)

lemma length_append_output: "2 * length (append_output b d) \<le> 3 * REPLAY_BUFFER_SIZE"
  unfolding append_output_def Let_def
  by (simp add: length_slice_last REPLAY_BUFFER_SIZE_def del: length_append)

lemma append_output_trim:
  "2 * length (b @ d) > 3 * REPLAY_BUFFER_SIZE \<Longrightarrow>
     length (append_output b d) = REPLAY_BUFFER_SIZE \<and>
     take (length (b @ d) - REPLAY_BUFFER_SIZE) (b @ d) @ append_output b d = b @ d"
  unfolding append_output_def Let_def
  by (simp add: length_slice_last take_slice_last del: length_append take_append) 

lemma append_output_keep:
  "\<not> 2 * length (b @ d) > 3 * REPLAY_BUFFER_SIZE \<Longrightarrow> append_output b d = b @ d"
  by (simp add: append_output_def Let_def)

text \<open>Forwarders do not touch the heap.\<close>
lemma heap_call_data_listener_Forward: "f \<noteq> Buffer_output \<Longrightarrow> heap (call_data_listener s d f st) = heap st"
  by (cases f) simp_all

lemma heap_fold_forward:
  "Buffer_output \<notin> set fs \<Longrightarrow> heap (fold (call_data_listener s d) fs st) = heap st"
  by (induction fs arbitrary: st) (auto simp: heap_call_data_listener_Forward)


lemma remove_listener_filter:
  "distinct (map fst xs) \<Longrightarrow> remove_listener l xs = filter (\<lambda>x. fst x \<noteq> l) xs"
proof (induction xs)
  case Nil
  then show ?case by simp
next
  case (Cons x xs)
  have "fst x \<notin> fst ` set xs"
    using Cons.prems by simp
  then have "\<And>y. y \<in> set xs \<Longrightarrow> fst y \<noteq> fst x"
    by (auto simp: image_iff)
  then have "filter (\<lambda>y. fst y \<noteq> fst x) xs = xs"
    by (simp add: filter_id_conv)
  with Cons show ?case by (cases "fst x = l") simp_all
qed

lemma session_ok_ForwardD:
  "session_ok st s S \<Longrightarrow> (l, Forward c) \<in> set (onDataL (pty S)) \<Longrightarrow>
     \<exists>C. conns st c = Some C \<and> Disposable s OnData l \<in> set (disposables C)"
  unfolding session_ok_def by blast

lemma session_ok_NotifyD:
  "session_ok st s S \<Longrightarrow> (l, Notify c) \<in> set (onExitL (pty S)) \<Longrightarrow>
     \<exists>C. conns st c = Some C \<and> Disposable s OnExit l \<in> set (disposables C)"
  unfolding session_ok_def by blast

lemma session_ok_distinct:
  "session_ok st s S \<Longrightarrow> distinct (map fst (onDataL (pty S))) \<and> distinct (map fst (onExitL (pty S)))"
  unfolding session_ok_def lids_ok_def by blast

lemma wf_session_ok: "wf st \<Longrightarrow> heap st s = Some S \<Longrightarrow> session_ok st s S"
  unfolding wf_def by blast

lemma wf_conn_ok: "wf st \<Longrightarrow> conns st c = Some C \<Longrightarrow> conn_ok st c C"
  unfolding wf_def by blast

text \<open>Projections of dispose and detach.\<close>

lemma dispose_frame [simp]:
  "conns (dispose d st) = conns st" "sessions (dispose d st) = sessions st"
  "pending (dispose d st) = pending st" "nextSid (dispose d st) = nextSid st"
  "nextLid (dispose d st) = nextLid st"
  by (induct d st rule: dispose.induct; simp)+

lemma fold_dispose_frame [simp]:
  "conns (fold dispose ds st) = conns st" "sessions (fold dispose ds st) = sessions st"
  "pending (fold dispose ds st) = pending st" "nextSid (fold dispose ds st) = nextSid st"
  "nextLid (fold dispose ds st) = nextLid st"
  by (induction ds arbitrary: st; simp)+

lemma detach_frame [simp]:
  "sessions (detach c st) = sessions st"
  "pending (detach c st) = pending st" "nextSid (detach c st) = nextSid st"
  "nextLid (detach c st) = nextLid st"
  by (simp_all add: detach_def split: option.splits)

lemma conns_detach:
  "conns (detach c st) c' =
     (if c' = c then map_option (\<lambda>C. C\<lparr>disposables := [], currentSession := None\<rparr>) (conns st c)
      else conns st c')"
  by (simp add: detach_def split: option.splits)

lemma unsubscribe_id:
  assumes a: "\<And>l. (l, Forward c) \<notin> set (onDataL (pty S))"
    and b: "\<And>l. (l, Notify c) \<notin> set (onExitL (pty S))"
  shows "unsubscribe c S = S"
proof -
  have 1: "filter (\<lambda>x. snd x \<noteq> Forward c) (onDataL (pty S)) = onDataL (pty S)"
    unfolding filter_id_conv using a by (metis prod.collapse)
  have 2: "filter (\<lambda>x. snd x \<noteq> Notify c) (onExitL (pty S)) = onExitL (pty S)"
    unfolding filter_id_conv using b by (metis prod.collapse)
  show ?thesis by (simp add: unsubscribe_def 1 2)
qed

text \<open>In a well-formed state the listeners of a connection are those its disposables name.\<close>

lemma filter_lid_eq_filter_listener:
  assumes d: "distinct (map fst xs)" and i: "(l0, f0) \<in> set xs"
    and only: "\<And>l. (l, f0) \<in> set xs \<Longrightarrow> l = l0"
  shows "filter (\<lambda>x. fst x \<noteq> l0) xs = filter (\<lambda>x. snd x \<noteq> f0) xs"
proof (rule filter_cong[OF refl])
  fix x assume x: "x \<in> set xs"
  show "(fst x \<noteq> l0) = (snd x \<noteq> f0)"
  proof
    assume "fst x \<noteq> l0"
    with only[of "fst x"] x show "snd x \<noteq> f0" by (metis prod.collapse)
  next
    assume ne: "snd x \<noteq> f0"
    show "fst x \<noteq> l0"
    proof
      assume "fst x = l0"
      then have "x = (l0, f0)" using d x i by (metis eq_key_imp_eq_value prod.collapse)
      then show False using ne by simp
    qed
  qed
qed

lemma heap_detach_wf:
  assumes "wf st" "conns st c = Some C"
  shows "heap (detach c st) s = map_option (unsubscribe c) (heap st s)"
proof -
  have ok: "conn_ok st c C" using assms by (rule wf_conn_ok)
  note sok = wf_session_ok[OF assms(1)]
  show ?thesis
  proof (cases "disposables C = []")
    case True
    have "unsubscribe c S = S" if "heap st s = Some S" for S
    proof (rule unsubscribe_id)
      show "(l, Forward c) \<notin> set (onDataL (pty S))" for l
        using session_ok_ForwardD[OF sok[OF that], of l c] True assms(2) by auto
      show "(l, Notify c) \<notin> set (onExitL (pty S))" for l
        using session_ok_NotifyD[OF sok[OF that], of l c] True assms(2) by auto
    qed
    then show ?thesis using True assms(2)
      by (cases "heap st s") (simp_all add: detach_def)
  next
    case False
    then obtain s0 l1 l2 S0 where ds: "disposables C = [Disposable s0 OnData l1, Disposable s0 OnExit l2]"
      and h0: "heap st s0 = Some S0"
      and in1: "(l1, Forward c) \<in> set (onDataL (pty S0))"
      and in2: "(l2, Notify c) \<in> set (onExitL (pty S0))"
      using ok unfolding conn_ok_def by blast
    show ?thesis
    proof (cases "s = s0")
      case True
      have so: "session_ok st s0 S0" by (rule sok[OF h0])
      have d1: "distinct (map fst (onDataL (pty S0)))" and d2: "distinct (map fst (onExitL (pty S0)))"
        using session_ok_distinct[OF so] by simp_all
      have f1: "filter (\<lambda>x. fst x \<noteq> l1) (onDataL (pty S0)) = filter (\<lambda>x. snd x \<noteq> Forward c) (onDataL (pty S0))"
      proof (rule filter_lid_eq_filter_listener[OF d1 in1])
        fix l assume "(l, Forward c) \<in> set (onDataL (pty S0))"
        from session_ok_ForwardD[OF so this] assms(2) ds show "l = l1" by auto
      qed
      have f2: "filter (\<lambda>x. fst x \<noteq> l2) (onExitL (pty S0)) = filter (\<lambda>x. snd x \<noteq> Notify c) (onExitL (pty S0))"
      proof (rule filter_lid_eq_filter_listener[OF d2 in2])
        fix l assume "(l, Notify c) \<in> set (onExitL (pty S0))"
        from session_ok_NotifyD[OF so this] assms(2) ds show "l = l2" by auto
      qed
      show ?thesis using True h0 ds assms(2)
        by (simp add: detach_def unsubscribe_def remove_listener_filter d1 d2 f1 f2)
    next
      case ne: False
      have "unsubscribe c S = S" if "heap st s = Some S" for S
      proof (rule unsubscribe_id)
        show "(l, Forward c) \<notin> set (onDataL (pty S))" for l
          using session_ok_ForwardD[OF sok[OF that], of l c] ds assms(2) ne by auto
        show "(l, Notify c) \<notin> set (onExitL (pty S))" for l
          using session_ok_NotifyD[OF sok[OF that], of l c] ds assms(2) ne by auto
      qed
      then show ?thesis using ne ds assms(2)
        by (cases "heap st s") (simp_all add: detach_def)
    qed
  qed
qed


subsection \<open>session_ok: rules\<close>

lemma session_okI:
  assumes "s < nextSid st"
    and "lids_ok (nextLid st) (onDataL (pty S))"
    and "lids_ok (nextLid st) (onExitL (pty S))"
    and "\<exists>l xs. onDataL (pty S) = (l, Buffer_output) # xs \<and> (\<forall>x \<in> set xs. snd x \<noteq> Buffer_output)"
    and "\<exists>l xs. onExitL (pty S) = (l, Mark_dead) # xs \<and> (\<forall>x \<in> set xs. snd x \<noteq> Mark_dead)"
    and "\<And>l c. (l, Forward c) \<in> set (onDataL (pty S)) \<Longrightarrow>
           \<exists>C. conns st c = Some C \<and> Disposable s OnData l \<in> set (disposables C)"
    and "\<And>l c. (l, Notify c) \<in> set (onExitL (pty S)) \<Longrightarrow>
           \<exists>C. conns st c = Some C \<and> Disposable s OnExit l \<in> set (disposables C)"
    and "alive S \<Longrightarrow> sessions st (cwd S) = Some s"
    and "2 * length (buffer S) \<le> 3 * REPLAY_BUFFER_SIZE"
  shows "session_ok st s S"
  unfolding session_ok_def using assms by blast

lemma session_ok_sid: "session_ok st s S \<Longrightarrow> s < nextSid st"
  and session_ok_lidsD: "session_ok st s S \<Longrightarrow> lids_ok (nextLid st) (onDataL (pty S))"
  and session_ok_lidsE: "session_ok st s S \<Longrightarrow> lids_ok (nextLid st) (onExitL (pty S))"
  and session_ok_ownD: "session_ok st s S \<Longrightarrow>
        \<exists>l xs. onDataL (pty S) = (l, Buffer_output) # xs \<and> (\<forall>x \<in> set xs. snd x \<noteq> Buffer_output)"
  and session_ok_ownE: "session_ok st s S \<Longrightarrow>
        \<exists>l xs. onExitL (pty S) = (l, Mark_dead) # xs \<and> (\<forall>x \<in> set xs. snd x \<noteq> Mark_dead)"
  and session_ok_alive: "session_ok st s S \<Longrightarrow> alive S \<Longrightarrow> sessions st (cwd S) = Some s"
  and session_ok_buffer: "session_ok st s S \<Longrightarrow> 2 * length (buffer S) \<le> 3 * REPLAY_BUFFER_SIZE"
  unfolding session_ok_def by blast+

lemma lids_ok_filter: "lids_ok n xs \<Longrightarrow> lids_ok n (filter P xs)"
  unfolding lids_ok_def by (simp add: distinct_map_filter)

lemma lids_ok_mono: "lids_ok n xs \<Longrightarrow> n \<le> m \<Longrightarrow> lids_ok m xs"
  unfolding lids_ok_def by fastforce

lemma lids_ok_snoc: "lids_ok n xs \<Longrightarrow> n \<le> l \<Longrightarrow> l < m \<Longrightarrow> lids_ok m (xs @ [(l, f)])"
  unfolding lids_ok_def by fastforce

lemma lids_ok_single: "l < m \<Longrightarrow> lids_ok m [(l, f)]"
  unfolding lids_ok_def by simp

lemma wf_sessions: "wf st \<Longrightarrow> sessions st k = Some s \<Longrightarrow> \<exists>S. heap st s = Some S \<and> cwd S = k \<and> alive S"
  unfolding wf_def by blast

lemma wf_pending: "wf st \<Longrightarrow> x \<in> set (pending st) \<Longrightarrow> conns st (fst x) \<noteq> None"
  unfolding wf_def by blast

lemma wfI:
  assumes "\<And>s S. heap st s = Some S \<Longrightarrow> session_ok st s S"
    and "\<And>c C. conns st c = Some C \<Longrightarrow> conn_ok st c C"
    and "\<And>k s. sessions st k = Some s \<Longrightarrow> \<exists>S. heap st s = Some S \<and> cwd S = k \<and> alive S"
    and "\<And>x. x \<in> set (pending st) \<Longrightarrow> conns st (fst x) \<noteq> None"
  shows "wf st"
  unfolding wf_def using assms by blast

lemma unsubscribe_simps [simp]:
  "onDataL (pty (unsubscribe c S)) = filter (\<lambda>x. snd x \<noteq> Forward c) (onDataL (pty S))"
  "onExitL (pty (unsubscribe c S)) = filter (\<lambda>x. snd x \<noteq> Notify c) (onExitL (pty S))"
  "pid (pty (unsubscribe c S)) = pid (pty S)"
  "calls (pty (unsubscribe c S)) = calls (pty S)"
  "cwd (unsubscribe c S) = cwd S" "buffer (unsubscribe c S) = buffer S"
  "alive (unsubscribe c S) = alive S"
  by (simp_all add: unsubscribe_def)

lemma subscribe_simps [simp]:
  "onDataL (pty (subscribe c l S)) = onDataL (pty S) @ [(l, Forward c)]"
  "onExitL (pty (subscribe c l S)) = onExitL (pty S) @ [(Suc l, Notify c)]"
  "pid (pty (subscribe c l S)) = pid (pty S)"
  "calls (pty (subscribe c l S)) = calls (pty S)"
  "cwd (subscribe c l S) = cwd S" "buffer (subscribe c l S) = buffer S"
  "alive (subscribe c l S) = alive S"
  by (simp_all add: subscribe_def)

subsection \<open>detach keeps states well-formed\<close>

lemma session_ok_unsubscribe:
  assumes ok: "session_ok st s S"
    and eqs: "nextSid st' = nextSid st" "nextLid st \<le> nextLid st'" "sessions st' = sessions st"
    and cs: "\<And>c'. c' \<noteq> c \<Longrightarrow> conns st' c' = conns st c'"
  shows "session_ok st' s (unsubscribe c S)"
proof (rule session_okI)
  show "s < nextSid st'" using session_ok_sid[OF ok] eqs by simp
  show "lids_ok (nextLid st') (onDataL (pty (unsubscribe c S)))"
    using lids_ok_mono[OF session_ok_lidsD[OF ok] eqs(2)] by (simp add: lids_ok_filter)
  show "lids_ok (nextLid st') (onExitL (pty (unsubscribe c S)))"
    using lids_ok_mono[OF session_ok_lidsE[OF ok] eqs(2)] by (simp add: lids_ok_filter)
  show "\<exists>l xs. onDataL (pty (unsubscribe c S)) = (l, Buffer_output) # xs \<and> (\<forall>x \<in> set xs. snd x \<noteq> Buffer_output)"
    using session_ok_ownD[OF ok] by auto
  show "\<exists>l xs. onExitL (pty (unsubscribe c S)) = (l, Mark_dead) # xs \<and> (\<forall>x \<in> set xs. snd x \<noteq> Mark_dead)"
    using session_ok_ownE[OF ok] by auto
  show "\<exists>C. conns st' c' = Some C \<and> Disposable s OnData l \<in> set (disposables C)"
    if "(l, Forward c') \<in> set (onDataL (pty (unsubscribe c S)))" for l c'
  proof -
    from that have "c' \<noteq> c" and "(l, Forward c') \<in> set (onDataL (pty S))" by auto
    with session_ok_ForwardD[OF ok] cs show ?thesis by simp
  qed
  show "\<exists>C. conns st' c' = Some C \<and> Disposable s OnExit l \<in> set (disposables C)"
    if "(l, Notify c') \<in> set (onExitL (pty (unsubscribe c S)))" for l c'
  proof -
    from that have "c' \<noteq> c" and "(l, Notify c') \<in> set (onExitL (pty S))" by auto
    with session_ok_NotifyD[OF ok] cs show ?thesis by simp
  qed
  show "sessions st' (cwd (unsubscribe c S)) = Some s" if "alive (unsubscribe c S)"
    using that session_ok_alive[OF ok] eqs by simp
  show "2 * length (buffer (unsubscribe c S)) \<le> 3 * REPLAY_BUFFER_SIZE"
    using session_ok_buffer[OF ok] by simp
qed

lemma conn_okE:
  assumes "conn_ok st c C"
  obtains (idle) "disposables C = []" "currentSession C = None"
  | (sub) s l1 l2 S where "disposables C = [Disposable s OnData l1, Disposable s OnExit l2]"
      "heap st s = Some S" "(l1, Forward c) \<in> set (onDataL (pty S))"
      "(l2, Notify c) \<in> set (onExitL (pty S))"
      "currentSession C = Some s \<or> (currentSession C = None \<and> \<not> alive S)"
  using assms unfolding conn_ok_def by (elim disjE exE conjE) blast+

lemma conn_ok_idleI: "disposables C = [] \<Longrightarrow> currentSession C = None \<Longrightarrow> conn_ok st c C"
  unfolding conn_ok_def by simp

lemma conn_ok_subI:
  "disposables C = [Disposable s OnData l1, Disposable s OnExit l2] \<Longrightarrow>
   heap st s = Some S \<Longrightarrow> (l1, Forward c) \<in> set (onDataL (pty S)) \<Longrightarrow>
   (l2, Notify c) \<in> set (onExitL (pty S)) \<Longrightarrow>
   currentSession C = Some s \<or> (currentSession C = None \<and> \<not> alive S) \<Longrightarrow> conn_ok st c C"
  unfolding conn_ok_def by blast

lemma detach_None: "conns st c = None \<Longrightarrow> detach c st = st"
  by (simp add: detach_def)

lemma wf_detach:
  assumes "wf st"
  shows "wf (detach c st)"
proof (cases "conns st c")
  case None
  then show ?thesis using assms by (simp add: detach_None)
next
  case (Some C)
  note hp = heap_detach_wf[OF assms Some]
  show ?thesis
  proof (rule wfI)
    fix s S' assume "heap (detach c st) s = Some S'"
    then obtain S where S: "heap st s = Some S" and S': "S' = unsubscribe c S"
      unfolding hp by auto
    show "session_ok (detach c st) s S'"
      unfolding S'
      by (rule session_ok_unsubscribe[OF wf_session_ok[OF assms S]]) (simp_all add: conns_detach)
  next
    fix c' C' assume c': "conns (detach c st) c' = Some C'"
    show "conn_ok (detach c st) c' C'"
    proof (cases "c' = c")
      case True
      then show ?thesis using c' Some by (auto simp: conns_detach conn_ok_def)
    next
      case False
      then have old: "conns st c' = Some C'" using c' by (simp add: conns_detach)
      from wf_conn_ok[OF assms old] show ?thesis
      proof (cases rule: conn_okE)
        case idle
        then show ?thesis by (rule conn_ok_idleI)
      next
        case (sub s l1 l2 S)
        have "heap (detach c st) s = Some (unsubscribe c S)" using sub(2) by (simp add: hp)
        moreover have "(l1, Forward c') \<in> set (onDataL (pty (unsubscribe c S)))"
          using sub(3) False by simp
        moreover have "(l2, Notify c') \<in> set (onExitL (pty (unsubscribe c S)))"
          using sub(4) False by simp
        ultimately show ?thesis
          using sub(1,5)
          by (intro conn_ok_subI[where s = s and ?l1.0 = l1 and ?l2.0 = l2 and S = "unsubscribe c S"])
             simp_all
      qed
    qed
  next
    fix k s assume "sessions (detach c st) k = Some s"
    then have "sessions st k = Some s" by simp
    from wf_sessions[OF assms this] show "\<exists>S. heap (detach c st) s = Some S \<and> cwd S = k \<and> alive S"
      by (auto simp: hp)
  next
    fix x assume "x \<in> set (pending (detach c st))"
    then have "conns st (fst x) \<noteq> None" using wf_pending[OF assms] by simp
    then show "conns (detach c st) (fst x) \<noteq> None" by (auto simp: conns_detach)
  qed
qed


subsection \<open>Updates of one connection or one session\<close>

lemma session_ok_cong:
  assumes "session_ok st s S"
    and "nextSid st' = nextSid st" "nextLid st' = nextLid st" "sessions st' = sessions st"
    and "\<And>c C. conns st c = Some C \<Longrightarrow> \<exists>C'. conns st' c = Some C' \<and> disposables C' = disposables C"
    and "onDataL (pty S') = onDataL (pty S)" "onExitL (pty S') = onExitL (pty S)"
    and "cwd S' = cwd S" "alive S' \<Longrightarrow> alive S"
    and "2 * length (buffer S') \<le> 3 * REPLAY_BUFFER_SIZE"
  shows "session_ok st' s S'"
proof (rule session_okI)
  show "s < nextSid st'" using session_ok_sid[OF assms(1)] assms(2) by simp
  show "lids_ok (nextLid st') (onDataL (pty S'))" using session_ok_lidsD[OF assms(1)] assms(3,6) by simp
  show "lids_ok (nextLid st') (onExitL (pty S'))" using session_ok_lidsE[OF assms(1)] assms(3,7) by simp
  show "\<exists>l xs. onDataL (pty S') = (l, Buffer_output) # xs \<and> (\<forall>x \<in> set xs. snd x \<noteq> Buffer_output)"
    using session_ok_ownD[OF assms(1)] assms(6) by simp
  show "\<exists>l xs. onExitL (pty S') = (l, Mark_dead) # xs \<and> (\<forall>x \<in> set xs. snd x \<noteq> Mark_dead)"
    using session_ok_ownE[OF assms(1)] assms(7) by simp
  show "\<exists>C. conns st' c = Some C \<and> Disposable s OnData l \<in> set (disposables C)"
    if "(l, Forward c) \<in> set (onDataL (pty S'))" for l c
  proof -
    from that assms(6) session_ok_ForwardD[OF assms(1), of l c]
    obtain C where "conns st c = Some C" "Disposable s OnData l \<in> set (disposables C)" by auto
    with assms(5)[of c C] show ?thesis by auto
  qed
  show "\<exists>C. conns st' c = Some C \<and> Disposable s OnExit l \<in> set (disposables C)"
    if "(l, Notify c) \<in> set (onExitL (pty S'))" for l c
  proof -
    from that assms(7) session_ok_NotifyD[OF assms(1), of l c]
    obtain C where "conns st c = Some C" "Disposable s OnExit l \<in> set (disposables C)" by auto
    with assms(5)[of c C] show ?thesis by auto
  qed
  show "sessions st' (cwd S') = Some s" if "alive S'"
    using session_ok_alive[OF assms(1)] assms(9)[OF that] assms(4,8) by simp
  show "2 * length (buffer S') \<le> 3 * REPLAY_BUFFER_SIZE" by (rule assms(10))
qed

lemma conn_ok_heap: "heap st' = heap st \<Longrightarrow> conn_ok st' c C = conn_ok st c C"
  by (simp add: conn_ok_def)

lemma conn_ok_links:
  "disposables C' = disposables C \<Longrightarrow> currentSession C' = currentSession C \<Longrightarrow>
     conn_ok st c C' = conn_ok st c C"
  by (simp add: conn_ok_def)

lemma wf_upd_conn_gen:
  assumes w: "wf st"
    and f: "\<And>C. conns st c = Some C \<Longrightarrow> disposables (f C) = disposables C"
      "\<And>C. conns st c = Some C \<Longrightarrow> conn_ok st c (f C)"
  shows "wf (upd_conn c f st)"
proof (rule wfI)
  fix s S assume h: "heap (upd_conn c f st) s = Some S"
  then have h': "heap st s = Some S" by simp
  show "session_ok (upd_conn c f st) s S"
  proof (rule session_ok_cong[OF wf_session_ok[OF w h']])
    fix c' C assume "conns st c' = Some C"
    then show "\<exists>C'. conns (upd_conn c f st) c' = Some C' \<and> disposables C' = disposables C"
      using f(1) by (cases "c' = c") auto
  qed (simp_all add: session_ok_buffer[OF wf_session_ok[OF w h']])
next
  fix c' C' assume c': "conns (upd_conn c f st) c' = Some C'"
  show "conn_ok (upd_conn c f st) c' C'"
  proof (cases "c' = c")
    case False
    then have "conns st c' = Some C'" using c' by simp
    from wf_conn_ok[OF w this] show ?thesis
      by (simp add: conn_ok_heap[of "upd_conn c f st" st])
  next
    case True
    then obtain C where C: "conns st c = Some C" and C': "C' = f C" using c' by auto
    from f(2)[OF C] show ?thesis unfolding True C'
      by (simp add: conn_ok_heap[of "upd_conn c f st" st])
  qed
next
  fix k s assume "sessions (upd_conn c f st) k = Some s"
  then show "\<exists>S. heap (upd_conn c f st) s = Some S \<and> cwd S = k \<and> alive S"
    using wf_sessions[OF w] by simp
next
  fix x assume "x \<in> set (pending (upd_conn c f st))"
  then show "conns (upd_conn c f st) (fst x) \<noteq> None" using wf_pending[OF w, of x] by auto
qed

lemma wf_upd_conn:
  assumes w: "wf st"
    and f: "\<And>C. disposables (f C) = disposables C"
      "\<And>C. currentSession (f C) = currentSession C"
  shows "wf (upd_conn c f st)"
proof (rule wf_upd_conn_gen[OF w])
  fix C assume C: "conns st c = Some C"
  show "disposables (f C) = disposables C" by (rule f(1))
  show "conn_ok st c (f C)"
    using wf_conn_ok[OF w C] by (simp add: conn_ok_links[OF f(1) f(2)])
qed

lemma wf_upd_session:
  assumes w: "wf st"
    and f: "\<And>S. onDataL (pty (f S)) = onDataL (pty S)" "\<And>S. onExitL (pty (f S)) = onExitL (pty S)"
      "\<And>S. cwd (f S) = cwd S" "\<And>S. alive (f S) = alive S"
      "\<And>S. 2 * length (buffer S) \<le> 3 * REPLAY_BUFFER_SIZE \<Longrightarrow> 2 * length (buffer (f S)) \<le> 3 * REPLAY_BUFFER_SIZE"
  shows "wf (upd_session s f st)"
proof (rule wfI)
  fix s' S' assume h: "heap (upd_session s f st) s' = Some S'"
  then obtain S where S: "heap st s' = Some S" and S': "S' = f S \<or> S' = S"
    by (auto split: if_splits)
  note ok = wf_session_ok[OF w S]
  from S' show "session_ok (upd_session s f st) s' S'"
  proof
    assume "S' = f S"
    then show ?thesis
      using f session_ok_buffer[OF ok] by (intro session_ok_cong[OF ok]) simp_all
  next
    assume "S' = S"
    then show ?thesis
      using session_ok_buffer[OF ok] by (intro session_ok_cong[OF ok]) simp_all
  qed
next
  fix c C assume c: "conns (upd_session s f st) c = Some C"
  then have "conn_ok st c C" using wf_conn_ok[OF w] by simp
  then show "conn_ok (upd_session s f st) c C"
  proof (cases rule: conn_okE)
    case idle
    then show ?thesis by (rule conn_ok_idleI)
  next
    case (sub s0 l1 l2 S)
    show ?thesis
    proof (cases "s0 = s")
      case True
      show ?thesis
        by (rule conn_ok_subI[where S = "f S"]) (use sub True f in simp_all)
    next
      case False
      show ?thesis
        by (rule conn_ok_subI[where S = S]) (use sub False in simp_all)
    qed
  qed
next
  fix k s' assume "sessions (upd_session s f st) k = Some s'"
  then have "sessions st k = Some s'" by simp
  from wf_sessions[OF w this] show "\<exists>S. heap (upd_session s f st) s' = Some S \<and> cwd S = k \<and> alive S"
    using f by auto
next
  fix x assume "x \<in> set (pending (upd_session s f st))"
  then show "conns (upd_session s f st) (fst x) \<noteq> None" using wf_pending[OF w, of x] by auto
qed

lemma ws_send_links [simp]:
  "disposables (ws_send x C) = disposables C" "currentSession (ws_send x C) = currentSession C"
  "wsOpen (ws_send x C) = wsOpen C"
  by (simp_all add: ws_send_def)

lemma wf_sendControl: "wf st \<Longrightarrow> wf (sendControl c m st)"
  unfolding sendControl_def by (rule wf_upd_conn) simp_all

subsection \<open>Output of the PTY\<close>

lemma call_data_listener_frame [simp]:
  "sessions (call_data_listener s d f st) = sessions st"
  "pending (call_data_listener s d f st) = pending st"
  "nextSid (call_data_listener s d f st) = nextSid st"
  "nextLid (call_data_listener s d f st) = nextLid st"
  by (cases f; simp)+

lemma fold_data_frame [simp]:
  "sessions (fold (call_data_listener s d) fs st) = sessions st"
  "pending (fold (call_data_listener s d) fs st) = pending st"
  "nextSid (fold (call_data_listener s d) fs st) = nextSid st"
  "nextLid (fold (call_data_listener s d) fs st) = nextLid st"
  by (induction fs arbitrary: st; simp)+

lemma pty_data_frame [simp]:
  "sessions (pty_data s d st) = sessions st" "pending (pty_data s d st) = pending st"
  "nextSid (pty_data s d st) = nextSid st" "nextLid (pty_data s d st) = nextLid st"
  by (simp_all add: pty_data_def split: option.splits)

lemma wf_call_data_listener: "wf st \<Longrightarrow> wf (call_data_listener s d f st)"
proof (cases f)
  case Buffer_output
  assume "wf st"
  then show ?thesis unfolding Buffer_output call_data_listener.simps
    by (rule wf_upd_session) (simp_all add: length_append_output)
next
  case (Forward c)
  assume "wf st"
  then show ?thesis unfolding Forward call_data_listener.simps
    by (rule wf_upd_conn) simp_all
qed

lemma wf_fold_data: "wf st \<Longrightarrow> wf (fold (call_data_listener s d) fs st)"
  by (induction fs arbitrary: st) (simp_all add: wf_call_data_listener)

lemma wf_pty_data: "wf st \<Longrightarrow> wf (pty_data s d st)"
  by (simp add: pty_data_def wf_fold_data split: option.splits)

text \<open>What a chunk of output does to the heap: the session's buffer takes it, once.\<close>

lemma heap_pty_data:
  assumes "wf st" "heap st s = Some S"
  shows "heap (pty_data s d st) = (heap st)(s \<mapsto> S\<lparr>buffer := append_output (buffer S) d\<rparr>)"
proof -
  from session_ok_ownD[OF wf_session_ok[OF assms]]
  obtain l xs where xs: "onDataL (pty S) = (l, Buffer_output) # xs" "\<forall>x \<in> set xs. snd x \<noteq> Buffer_output"
    by blast
  then have "Buffer_output \<notin> set (map snd xs)" by auto
  then show ?thesis using assms(2) xs(1)
    by (auto simp: pty_data_def heap_fold_forward)
qed


subsection \<open>attach\<close>

lemma attach_frame [simp]:
  "sessions (attach c s st) = sessions st" "pending (attach c s st) = pending st"
  "nextSid (attach c s st) = nextSid st" "nextLid (attach c s st) = Suc (Suc (nextLid st))"
  by (simp_all add: attach_def onData_def onExit_def Let_def)

lemma heap_attach:
  "heap (attach c s st) s' =
     (if s' = s then map_option (subscribe c (nextLid st)) (heap (detach c st) s)
      else heap (detach c st) s')"
  by (cases "heap (detach c st) s")
     (simp_all add: attach_def onData_def onExit_def Let_def subscribe_def)

lemma conns_attach:
  "conns (attach c s st) c' =
     (if c' = c
      then map_option (\<lambda>C. C\<lparr>disposables := [Disposable s OnData (nextLid st),
                                                  Disposable s OnExit (Suc (nextLid st))],
                                 currentSession := Some s\<rparr>) (conns st c)
      else conns st c')"
  by (cases "conns st c")
     (simp_all add: attach_def onData_def onExit_def Let_def conns_detach)


lemma heap_attach_wf:
  assumes "wf st" "conns st c = Some C"
  shows "heap (attach c s st) s' =
           (if s' = s then map_option (\<lambda>S. subscribe c (nextLid st) (unsubscribe c S)) (heap st s)
            else map_option (unsubscribe c) (heap st s'))"
  by (simp add: heap_attach heap_detach_wf[OF assms] option.map_comp comp_def)

lemma wf_attach:
  assumes w: "wf st" and C: "conns st c = Some C" and S: "heap st s = Some S"
  shows "wf (attach c s st)"
proof (rule wfI)
  note hp = heap_attach_wf[OF w C]
  fix s' S' assume h: "heap (attach c s st) s' = Some S'"
  show "session_ok (attach c s st) s' S'"
  proof (cases "s' = s")
    case False
    then obtain S0 where S0: "heap st s' = Some S0" and S': "S' = unsubscribe c S0"
      using h unfolding hp by auto
    show ?thesis unfolding S'
      by (rule session_ok_unsubscribe[OF wf_session_ok[OF w S0]]) (simp_all add: conns_attach)
  next
    case True
    then have S': "S' = subscribe c (nextLid st) (unsubscribe c S)"
      using h S unfolding hp by simp
    note ok = wf_session_ok[OF w S]
    show ?thesis unfolding S' True
    proof (rule session_okI)
      show "s < nextSid (attach c s st)" using session_ok_sid[OF ok] by simp
      show "lids_ok (nextLid (attach c s st)) (onDataL (pty (subscribe c (nextLid st) (unsubscribe c S))))"
        using lids_ok_snoc[OF lids_ok_filter[OF session_ok_lidsD[OF ok]], of "nextLid st" "Suc (Suc (nextLid st))"]
        by simp
      show "lids_ok (nextLid (attach c s st)) (onExitL (pty (subscribe c (nextLid st) (unsubscribe c S))))"
        using lids_ok_snoc[OF lids_ok_filter[OF session_ok_lidsE[OF ok]], of "Suc (nextLid st)" "Suc (Suc (nextLid st))"]
        by simp
      show "\<exists>l xs. onDataL (pty (subscribe c (nextLid st) (unsubscribe c S))) = (l, Buffer_output) # xs
              \<and> (\<forall>x \<in> set xs. snd x \<noteq> Buffer_output)"
        using session_ok_ownD[OF ok] by auto
      show "\<exists>l xs. onExitL (pty (subscribe c (nextLid st) (unsubscribe c S))) = (l, Mark_dead) # xs
              \<and> (\<forall>x \<in> set xs. snd x \<noteq> Mark_dead)"
        using session_ok_ownE[OF ok] by auto
      show "\<exists>C. conns (attach c s st) c' = Some C \<and> Disposable s OnData l \<in> set (disposables C)"
        if "(l, Forward c') \<in> set (onDataL (pty (subscribe c (nextLid st) (unsubscribe c S))))" for l c'
      proof (cases "c' = c")
        case True
        with that have "l = nextLid st" by auto
        then show ?thesis using True C by (simp add: conns_attach)
      next
        case False
        with that have "(l, Forward c') \<in> set (onDataL (pty S))" by auto
        from session_ok_ForwardD[OF ok this] False show ?thesis by (simp add: conns_attach)
      qed
      show "\<exists>C. conns (attach c s st) c' = Some C \<and> Disposable s OnExit l \<in> set (disposables C)"
        if "(l, Notify c') \<in> set (onExitL (pty (subscribe c (nextLid st) (unsubscribe c S))))" for l c'
      proof (cases "c' = c")
        case True
        with that have "l = Suc (nextLid st)" by auto
        then show ?thesis using True C by (simp add: conns_attach)
      next
        case False
        with that have "(l, Notify c') \<in> set (onExitL (pty S))" by auto
        from session_ok_NotifyD[OF ok this] False show ?thesis by (simp add: conns_attach)
      qed
      show "sessions (attach c s st) (cwd (subscribe c (nextLid st) (unsubscribe c S))) = Some s"
        if "alive (subscribe c (nextLid st) (unsubscribe c S))"
        using that session_ok_alive[OF ok] by simp
      show "2 * length (buffer (subscribe c (nextLid st) (unsubscribe c S))) \<le> 3 * REPLAY_BUFFER_SIZE"
        using session_ok_buffer[OF ok] by simp
    qed
  qed
next
  note hp = heap_attach_wf[OF w C]
  fix c' C' assume c': "conns (attach c s st) c' = Some C'"
  show "conn_ok (attach c s st) c' C'"
  proof (cases "c' = c")
    case True
    then have C': "C' = C\<lparr>disposables := [Disposable s OnData (nextLid st), Disposable s OnExit (Suc (nextLid st))],
                           currentSession := Some s\<rparr>"
      using c' C by (simp add: conns_attach)
    show ?thesis unfolding True
      by (rule conn_ok_subI[where s = s and ?l1.0 = "nextLid st" and ?l2.0 = "Suc (nextLid st)"
            and S = "subscribe c (nextLid st) (unsubscribe c S)"])
         (simp_all add: C' hp S)
  next
    case False
    then have old: "conns st c' = Some C'" using c' by (simp add: conns_attach)
    from wf_conn_ok[OF w old] show ?thesis
    proof (cases rule: conn_okE)
      case idle
      then show ?thesis by (rule conn_ok_idleI)
    next
      case (sub s0 l1 l2 S0)
      show ?thesis
      proof (cases "s0 = s")
        case True
        show ?thesis
          by (rule conn_ok_subI[where s = s0 and ?l1.0 = l1 and ?l2.0 = l2
                and S = "subscribe c (nextLid st) (unsubscribe c S0)"])
             (use sub True False in \<open>simp_all add: hp\<close>)
      next
        case ne: False
        show ?thesis
          by (rule conn_ok_subI[where s = s0 and ?l1.0 = l1 and ?l2.0 = l2 and S = "unsubscribe c S0"])
             (use sub ne False in \<open>simp_all add: hp\<close>)
      qed
    qed
  qed
next
  note hp = heap_attach_wf[OF w C]
  fix k s' assume "sessions (attach c s st) k = Some s'"
  then have "sessions st k = Some s'" by simp
  from wf_sessions[OF w this] show "\<exists>S. heap (attach c s st) s' = Some S \<and> cwd S = k \<and> alive S"
    by (auto simp: hp)
next
  fix x assume "x \<in> set (pending (attach c s st))"
  then show "conns (attach c s st) (fst x) \<noteq> None"
    using wf_pending[OF w, of x] C by (auto simp: conns_attach)
qed


subsection \<open>spawnSession\<close>

lemma fst_spawnSession [simp]: "fst (spawnSession k p st) = nextSid st"
  by (simp add: spawnSession_def onData_def onExit_def Let_def)

lemma spawnSession_frame [simp]:
  "conns (snd (spawnSession k p st)) = conns st"
  "pending (snd (spawnSession k p st)) = pending st"
  "nextSid (snd (spawnSession k p st)) = Suc (nextSid st)"
  "nextLid (snd (spawnSession k p st)) = Suc (Suc (nextLid st))"
  "sessions (snd (spawnSession k p st)) = (sessions st)(k \<mapsto> nextSid st)"
  by (simp_all add: spawnSession_def onData_def onExit_def Let_def)

lemma heap_spawnSession [simp]:
  "heap (snd (spawnSession k p st)) = (heap st)(nextSid st \<mapsto> new_session k p (nextLid st))"
  by (simp add: spawnSession_def onData_def onExit_def Let_def new_session_def upd_session_def)

lemma session_ok_mono:
  assumes "session_ok st s S"
    and "nextSid st \<le> nextSid st'" "nextLid st \<le> nextLid st'"
    and "conns st' = conns st"
    and "alive S \<Longrightarrow> sessions st' (cwd S) = Some s"
  shows "session_ok st' s S"
proof (rule session_okI)
  show "s < nextSid st'" using session_ok_sid[OF assms(1)] assms(2) by simp
  show "lids_ok (nextLid st') (onDataL (pty S))" by (rule lids_ok_mono[OF session_ok_lidsD[OF assms(1)] assms(3)])
  show "lids_ok (nextLid st') (onExitL (pty S))" by (rule lids_ok_mono[OF session_ok_lidsE[OF assms(1)] assms(3)])
  show "\<exists>l xs. onDataL (pty S) = (l, Buffer_output) # xs \<and> (\<forall>x \<in> set xs. snd x \<noteq> Buffer_output)"
    by (rule session_ok_ownD[OF assms(1)])
  show "\<exists>l xs. onExitL (pty S) = (l, Mark_dead) # xs \<and> (\<forall>x \<in> set xs. snd x \<noteq> Mark_dead)"
    by (rule session_ok_ownE[OF assms(1)])
  show "\<exists>C. conns st' c = Some C \<and> Disposable s OnData l \<in> set (disposables C)"
    if "(l, Forward c) \<in> set (onDataL (pty S))" for l c
    using session_ok_ForwardD[OF assms(1) that] assms(4) by simp
  show "\<exists>C. conns st' c = Some C \<and> Disposable s OnExit l \<in> set (disposables C)"
    if "(l, Notify c) \<in> set (onExitL (pty S))" for l c
    using session_ok_NotifyD[OF assms(1) that] assms(4) by simp
  show "sessions st' (cwd S) = Some s" if "alive S" by (rule assms(5)[OF that])
  show "2 * length (buffer S) \<le> 3 * REPLAY_BUFFER_SIZE" by (rule session_ok_buffer[OF assms(1)])
qed

lemma new_session_simps [simp]:
  "onDataL (pty (new_session k p l)) = [(l, Buffer_output)]"
  "onExitL (pty (new_session k p l)) = [(Suc l, Mark_dead)]"
  "pid (pty (new_session k p l)) = p" "calls (pty (new_session k p l)) = []"
  "cwd (new_session k p l) = k" "buffer (new_session k p l) = []" "alive (new_session k p l)"
  by (simp_all add: new_session_def)

lemma wf_fresh_sid: "wf st \<Longrightarrow> heap st (nextSid st) = None"
proof (rule ccontr)
  assume w: "wf st" and "heap st (nextSid st) \<noteq> None"
  then obtain S where "heap st (nextSid st) = Some S" by auto
  from session_ok_sid[OF wf_session_ok[OF w this]] show False by simp
qed

lemma existing_alive_None:
  assumes "wf st" "existing_alive st k = None"
  shows "sessions st k = None"
proof (rule ccontr)
  assume "sessions st k \<noteq> None"
  then obtain s where s: "sessions st k = Some s" by auto
  from wf_sessions[OF assms(1) s] obtain S where "heap st s = Some S" "alive S" by auto
  with s assms(2) show False by (simp add: existing_alive_def)
qed

lemma existing_alive_Some:
  assumes "wf st" "existing_alive st k = Some s"
  shows "sessions st k = Some s \<and> (\<exists>S. heap st s = Some S \<and> cwd S = k \<and> alive S)"
proof -
  from assms(2) have "sessions st k = Some s"
    by (auto simp: existing_alive_def split: option.splits if_splits)
  with wf_sessions[OF assms(1) this] show ?thesis by simp
qed

lemma wf_spawnSession:
  assumes w: "wf st" and none: "sessions st k = None"
  shows "wf (snd (spawnSession k p st))"
proof (rule wfI)
  fix s S assume h: "heap (snd (spawnSession k p st)) s = Some S"
  show "session_ok (snd (spawnSession k p st)) s S"
  proof (cases "s = nextSid st")
    case True
    then have S: "S = new_session k p (nextLid st)" using h by simp
    show ?thesis unfolding S True
      by (rule session_okI) (simp_all add: lids_ok_single REPLAY_BUFFER_SIZE_def)
  next
    case False
    then have old: "heap st s = Some S" using h by simp
    note ok = wf_session_ok[OF w old]
    show ?thesis
    proof (rule session_ok_mono[OF ok])
      assume "alive S"
      from session_ok_alive[OF ok this] none have "cwd S \<noteq> k" by auto
      then show "sessions (snd (spawnSession k p st)) (cwd S) = Some s"
        using session_ok_alive[OF ok \<open>alive S\<close>] by simp
    qed simp_all
  qed
next
  fix c C assume "conns (snd (spawnSession k p st)) c = Some C"
  then have c: "conns st c = Some C" by simp
  from wf_conn_ok[OF w c] show "conn_ok (snd (spawnSession k p st)) c C"
  proof (cases rule: conn_okE)
    case idle
    then show ?thesis by (rule conn_ok_idleI)
  next
    case (sub s l1 l2 S)
    have "s \<noteq> nextSid st" using sub(2) wf_fresh_sid[OF w] by auto
    then show ?thesis
      by (intro conn_ok_subI[where s = s and ?l1.0 = l1 and ?l2.0 = l2 and S = S])
         (use sub in simp_all)
  qed
next
  fix k' s assume r: "sessions (snd (spawnSession k p st)) k' = Some s"
  show "\<exists>S. heap (snd (spawnSession k p st)) s = Some S \<and> cwd S = k' \<and> alive S"
  proof (cases "k' = k")
    case True
    then show ?thesis using r by auto
  next
    case False
    then have old: "sessions st k' = Some s" using r by simp
    from wf_sessions[OF w old] obtain S where S: "heap st s = Some S" "cwd S = k'" "alive S" by auto
    then have "s \<noteq> nextSid st" using wf_fresh_sid[OF w] by auto
    then show ?thesis using S by simp
  qed
next
  fix x assume "x \<in> set (pending (snd (spawnSession k p st)))"
  then show "conns (snd (spawnSession k p st)) (fst x) \<noteq> None"
    using wf_pending[OF w, of x] by simp
qed


subsection \<open>The continuation of selectProject\<close>

lemma wf_replay: "wf st \<Longrightarrow> wf (replay c s st)"
  unfolding replay_def by (auto split: option.splits intro: wf_upd_conn)

lemma wf_selectProject_resume:
  assumes w: "wf st" and C: "conns st c = Some C"
  shows "wf (selectProject_resume c k isDir sp st)"
proof (cases isDir)
  case False
  then show ?thesis using w by (simp add: selectProject_resume_def wf_sendControl)
next
  case True
  show ?thesis
  proof (cases "existing_alive st k")
    case (Some s)
    from existing_alive_Some[OF w Some] obtain S where "heap st s = Some S" by auto
    from wf_attach[OF w C this] show ?thesis
      using True Some by (simp add: selectProject_resume_def wf_sendControl wf_replay)
  next
    case None
    show ?thesis
    proof (cases sp)
      case (SpawnFails err)
      then show ?thesis using True None w by (simp add: selectProject_resume_def wf_sendControl)
    next
      case (SpawnOk p)
      let ?st1 = "snd (spawnSession k p st)"
      have w1: "wf ?st1" by (rule wf_spawnSession[OF w existing_alive_None[OF w None]])
      have "wf (attach c (nextSid st) ?st1)"
        by (rule wf_attach[OF w1, where C = C and S = "new_session k p (nextLid st)"]) (simp_all add: C)
      then show ?thesis using True None SpawnOk
        by (simp add: selectProject_resume_def wf_sendControl split_beta)
    qed
  qed
qed

lemma session_ok_pending [simp]: "session_ok (st\<lparr>pending := ps\<rparr>) s S = session_ok st s S"
  by (simp add: session_ok_def)

lemma conn_ok_pending [simp]: "conn_ok (st\<lparr>pending := ps\<rparr>) c C = conn_ok st c C"
  by (simp add: conn_ok_def)

lemma wf_pending_update:
  assumes w: "wf st" and ps: "\<And>x. x \<in> set ps \<Longrightarrow> conns st (fst x) \<noteq> None"
  shows "wf (st\<lparr>pending := ps\<rparr>)"
proof (rule wfI)
  fix s S assume "heap (st\<lparr>pending := ps\<rparr>) s = Some S"
  then show "session_ok (st\<lparr>pending := ps\<rparr>) s S" using wf_session_ok[OF w] by simp
next
  fix c C assume "conns (st\<lparr>pending := ps\<rparr>) c = Some C"
  then show "conn_ok (st\<lparr>pending := ps\<rparr>) c C" using wf_conn_ok[OF w] by simp
next
  fix k s assume "sessions (st\<lparr>pending := ps\<rparr>) k = Some s"
  then show "\<exists>S. heap (st\<lparr>pending := ps\<rparr>) s = Some S \<and> cwd S = k \<and> alive S"
    using wf_sessions[OF w] by simp
next
  fix x assume "x \<in> set (pending (st\<lparr>pending := ps\<rparr>))"
  then show "conns (st\<lparr>pending := ps\<rparr>) (fst x) \<noteq> None" using ps by simp
qed

lemma wf_resume: "wf st \<Longrightarrow> wf (resume n isDir sp st)"
proof -
  assume w: "wf st"
  show ?thesis
  proof (cases "n < length (pending st)")
    case False
    then show ?thesis using w by (simp add: resume_def)
  next
    case True
    obtain c k where ck: "pending st ! n = (c, k)" by (cases "pending st ! n")
    let ?st = "st\<lparr>pending := take n (pending st) @ drop (Suc n) (pending st)\<rparr>"
    have "set (take n (pending st) @ drop (Suc n) (pending st)) \<subseteq> set (pending st)"
      by (auto dest: in_set_takeD in_set_dropD)
    then have w': "wf ?st" using wf_pending[OF w] by (intro wf_pending_update[OF w]) blast
    have "(c, k) \<in> set (pending st)" using True ck by (metis nth_mem)
    from wf_pending[OF w this] obtain C where "conns ?st c = Some C" by auto
    from wf_selectProject_resume[OF w' this] show ?thesis
      using True ck by (simp add: resume_def)
  qed
qed

subsection \<open>Connections and messages\<close>

lemma wf_handleConnection:
  assumes w: "wf st" and new: "conns st c = None"
  shows "wf (handleConnection c st)"
proof -
  let ?C = "\<lparr>wsOpen = True, sent = [], currentSession = None, disposables = []\<rparr>"
  let ?st = "st\<lparr>conns := (conns st)(c \<mapsto> ?C)\<rparr>"
  have "wf ?st"
  proof (rule wfI)
    fix s S assume h: "heap ?st s = Some S"
    then have h': "heap st s = Some S" by simp
    note ok = wf_session_ok[OF w h']
    show "session_ok ?st s S"
    proof (rule session_ok_cong[OF ok])
      fix c' C assume "conns st c' = Some C"
      then show "\<exists>C'. conns ?st c' = Some C' \<and> disposables C' = disposables C"
        using new by (cases "c' = c") auto
    qed (simp_all add: session_ok_buffer[OF ok])
  next
    fix c' C' assume c': "conns ?st c' = Some C'"
    show "conn_ok ?st c' C'"
    proof (cases "c' = c")
      case True
      then show ?thesis using c' by (intro conn_ok_idleI) auto
    next
      case False
      then have "conn_ok st c' C'" using c' wf_conn_ok[OF w] by simp
      then show ?thesis by (simp add: conn_ok_def)
    qed
  next
    fix k s assume "sessions ?st k = Some s"
    then show "\<exists>S. heap ?st s = Some S \<and> cwd S = k \<and> alive S" using wf_sessions[OF w] by simp
  next
    fix x assume "x \<in> set (pending ?st)"
    then show "conns ?st (fst x) \<noteq> None" using wf_pending[OF w, of x] by auto
  qed
  then show ?thesis unfolding handleConnection_def by (rule wf_sendControl)
qed

lemma wf_call_pty: "wf st \<Longrightarrow> wf (call_pty s x st)"
  unfolding call_pty_def by (rule wf_upd_session) simp_all

lemma wf_on_input: "wf st \<Longrightarrow> wf (on_input c payload st)"
  by (simp add: on_input_def Let_def wf_call_pty split: option.splits)

lemma wf_on_resize: "wf st \<Longrightarrow> wf (on_resize c payload st)"
  by (simp add: on_resize_def Let_def wf_call_pty split: option.splits)

lemma wf_on_select:
  assumes w: "wf st" and C: "conns st c \<noteq> None"
  shows "wf (on_select J c payload st)"
proof -
  have "wf ((detach c st)\<lparr>pending := pending (detach c st) @ [(c, k)]\<rparr>)" for k
  proof (rule wf_pending_update[OF wf_detach[OF w]])
    fix x assume "x \<in> set (pending (detach c st) @ [(c, k)])"
    then have "x \<in> set (pending st) \<or> fst x = c" by auto
    then show "conns (detach c st) (fst x) \<noteq> None"
      using wf_pending[OF w, of x] C by (auto simp: conns_detach)
  qed
  then show ?thesis using w by (simp add: on_select_def selectProject_def split: option.splits)
qed

lemma wf_on_message: "wf st \<Longrightarrow> conns st c \<noteq> None \<Longrightarrow> wf (on_message J c msg st)"
  by (simp add: on_message_def wf_on_input wf_on_resize wf_on_select split: list.splits)

lemma wf_on_close: "wf st \<Longrightarrow> wf (on_close c st)"
  unfolding on_close_def by (intro wf_detach wf_upd_conn) simp_all


subsection \<open>Exit of the PTY\<close>

lemma call_exit_listener_frame [simp]:
  "pending (call_exit_listener s k code f st) = pending st"
  "nextSid (call_exit_listener s k code f st) = nextSid st"
  "nextLid (call_exit_listener s k code f st) = nextLid st"
  by (cases f; simp add: sendControl_def)+

lemma fold_exit_frame [simp]:
  "pending (fold (call_exit_listener s k code) fs st) = pending st"
  "nextSid (fold (call_exit_listener s k code) fs st) = nextSid st"
  "nextLid (fold (call_exit_listener s k code) fs st) = nextLid st"
  by (induction fs arbitrary: st; simp)+

lemma pty_exit_frame [simp]:
  "pending (pty_exit s code st) = pending st" "nextSid (pty_exit s code st) = nextSid st"
  "nextLid (pty_exit s code st) = nextLid st"
  by (simp_all add: pty_exit_def split: option.splits)






lemma conns_call_data_listener:
  "conns (call_data_listener s d f st) c =
     (if f = Forward c then map_option (ws_send (Raw d)) (conns st c) else conns st c)"
  by (cases f) auto

lemma conns_fold_data:
  "conns (fold (call_data_listener s d) fs st) c =
     map_option ((ws_send (Raw d)) ^^ count_list fs (Forward c)) (conns st c)"
proof (induction fs arbitrary: st)
  case Nil
  then show ?case by (simp add: option.map_ident)
next
  case (Cons f fs)
  show ?case
    by (simp add: Cons conns_call_data_listener option.map_comp funpow_Suc_right comp_def
             del: funpow.simps call_data_listener.simps)
qed

lemma wf_notify:
  assumes w: "wf st" and S: "heap st s = Some S" and dead: "\<not> alive S"
    and reg: "(l, Notify c) \<in> set (onExitL (pty S))"
  shows "wf (call_exit_listener s k code (Notify c) st)"
proof -
  have w1: "wf (sendControl c (Exited code k) st)" by (rule wf_sendControl[OF w])
  have h1: "heap (sendControl c (Exited code k) st) = heap st" by (simp add: sendControl_def)
  show ?thesis unfolding call_exit_listener.simps
  proof (rule wf_upd_conn_gen[OF w1])
    fix C assume C: "conns (sendControl c (Exited code k) st) c = Some C"
    show "disposables (C\<lparr>currentSession := None\<rparr>) = disposables C" by simp
    from session_ok_NotifyD[OF wf_session_ok[OF w1] reg, of s] S h1 C
    have d: "Disposable s OnExit l \<in> set (disposables C)" by auto
    from wf_conn_ok[OF w1 C] show "conn_ok (sendControl c (Exited code k) st) c (C\<lparr>currentSession := None\<rparr>)"
    proof (cases rule: conn_okE)
      case idle
      then show ?thesis using d by simp
    next
      case (sub s0 l1 l2 S0)
      then have "s0 = s" using d by auto
      then have "S0 = S" using sub(2) S h1 by simp
      show ?thesis
        by (rule conn_ok_subI[where s = s0 and ?l1.0 = l1 and ?l2.0 = l2 and S = S0])
           (use sub dead \<open>S0 = S\<close> in simp_all)
    qed
  qed
qed

lemma wf_fold_notify:
  assumes "wf st" and "heap st s = Some S" and "\<not> alive S"
    and "\<forall>f \<in> set fs. f \<noteq> Mark_dead \<and> (\<exists>l. (l, f) \<in> set (onExitL (pty S)))"
  shows "wf (fold (call_exit_listener s k code) fs st)"
  using assms
proof (induction fs arbitrary: st)
  case Nil
  then show ?case by simp
next
  case (Cons f fs)
  then obtain c l where f: "f = Notify c" "(l, Notify c) \<in> set (onExitL (pty S))"
    by (cases f) auto
  have w1: "wf (call_exit_listener s k code (Notify c) st)"
    by (rule wf_notify[OF Cons.prems(1,2,3) f(2)])
  have h1: "heap (call_exit_listener s k code (Notify c) st) s = Some S"
    using Cons.prems(2) by (simp add: sendControl_def)
  show ?case unfolding f(1) fold_simps
    by (rule Cons.IH[OF w1 h1 Cons.prems(3)]) (use Cons.prems(4) in simp)
qed

lemma wf_mark_dead:
  assumes w: "wf st" and S: "heap st s = Some S" and a: "alive S"
  shows "wf (call_exit_listener s (cwd S) code Mark_dead st)"
proof -
  let ?st = "call_exit_listener s (cwd S) code Mark_dead st"
  note ok = wf_session_ok[OF w S]
  have reg: "sessions st (cwd S) = Some s" by (rule session_ok_alive[OF ok a])
  have hp: "heap ?st s' = (if s' = s then Some (S\<lparr>alive := False\<rparr>) else heap st s')" for s'
    using S by simp
  have [simp]: "conns ?st = conns st" "pending ?st = pending st" "nextSid ?st = nextSid st"
    "nextLid ?st = nextLid st" "sessions ?st = (sessions st)(cwd S := None)" by simp_all
  show ?thesis
  proof (rule wfI)
    fix s' S' assume h: "heap ?st s' = Some S'"
    show "session_ok ?st s' S'"
    proof (cases "s' = s")
      case True
      then have S': "S' = S\<lparr>alive := False\<rparr>" using h S by simp
      show ?thesis unfolding S' True
        by (rule session_okI)
           (use session_ok_sid[OF ok] session_ok_lidsD[OF ok] session_ok_lidsE[OF ok]
              session_ok_ownD[OF ok] session_ok_ownE[OF ok] session_ok_ForwardD[OF ok]
              session_ok_NotifyD[OF ok] session_ok_buffer[OF ok] in simp_all)
    next
      case False
      then have old: "heap st s' = Some S'" using h hp by simp
      note ok' = wf_session_ok[OF w old]
      show ?thesis
      proof (rule session_ok_mono[OF ok'])
        assume "alive S'"
        from session_ok_alive[OF ok' this] reg False have "cwd S' \<noteq> cwd S" by auto
        then show "sessions ?st (cwd S') = Some s'"
          using session_ok_alive[OF ok' \<open>alive S'\<close>] by simp
      qed simp_all
    qed
  next
    fix c C assume "conns ?st c = Some C"
    then have "conn_ok st c C" using wf_conn_ok[OF w] by simp
    then show "conn_ok ?st c C"
    proof (cases rule: conn_okE)
      case idle
      then show ?thesis by (rule conn_ok_idleI)
    next
      case (sub s0 l1 l2 S0)
      show ?thesis
      proof (cases "s0 = s")
        case True
        show ?thesis
          by (rule conn_ok_subI[where s = s0 and ?l1.0 = l1 and ?l2.0 = l2 and S = "S\<lparr>alive := False\<rparr>"])
             (use sub True S in auto)
      next
        case False
        show ?thesis
          by (rule conn_ok_subI[where s = s0 and ?l1.0 = l1 and ?l2.0 = l2 and S = S0])
             (use sub False hp in simp_all)
      qed
    qed
  next
    fix k s' assume "sessions ?st k = Some s'"
    then have k: "k \<noteq> cwd S" and old: "sessions st k = Some s'" by (auto split: if_splits)
    from wf_sessions[OF w old] obtain S' where S': "heap st s' = Some S'" "cwd S' = k" "alive S'" by auto
    with k S have "s' \<noteq> s" by auto
    then show "\<exists>S. heap ?st s' = Some S \<and> cwd S = k \<and> alive S" using S' hp by simp
  next
    fix x assume "x \<in> set (pending ?st)"
    then show "conns ?st (fst x) \<noteq> None" using wf_pending[OF w, of x] by simp
  qed
qed

lemma wf_pty_exit: "wf st \<Longrightarrow> wf (pty_exit s code st)"
proof -
  assume w: "wf st"
  show ?thesis
  proof (cases "heap st s")
    case None
    then show ?thesis using w by (simp add: pty_exit_def)
  next
    case (Some S)
    show ?thesis
    proof (cases "alive S")
      case False
      then show ?thesis using w Some by (simp add: pty_exit_def)
    next
      case True
      from session_ok_ownE[OF wf_session_ok[OF w Some]]
      obtain l xs where xs: "onExitL (pty S) = (l, Mark_dead) # xs" "\<forall>x \<in> set xs. snd x \<noteq> Mark_dead"
        by blast
      let ?st1 = "call_exit_listener s (cwd S) code Mark_dead st"
      have w1: "wf ?st1" by (rule wf_mark_dead[OF w Some True])
      have h1: "heap ?st1 s = Some (S\<lparr>alive := False\<rparr>)" using Some by simp
      have "wf (fold (call_exit_listener s (cwd S) code) (map snd xs) ?st1)"
      proof (rule wf_fold_notify[OF w1 h1])
        show "\<forall>f \<in> set (map snd xs). f \<noteq> Mark_dead \<and> (\<exists>l. (l, f) \<in> set (onExitL (pty (S\<lparr>alive := False\<rparr>))))"
          using xs by force
      qed simp
      then show ?thesis using Some True xs(1)
        by (simp add: pty_exit_def del: call_exit_listener.simps)
    qed
  qed
qed

subsection \<open>Every reachable state is well-formed\<close>

lemma wf_init: "wf init"
  by (simp add: wf_def init_def)

lemma wf_step: "wf st \<Longrightarrow> wf (step J e st)"
  by (cases e)
     (simp_all add: wf_handleConnection wf_on_message wf_on_close wf_resume wf_pty_data wf_pty_exit)

lemma wf_fold_step: "wf st \<Longrightarrow> wf (fold (step J) es st)"
  by (induction es arbitrary: st) (simp_all add: wf_step)

lemma wf_run: "wf st \<Longrightarrow> wf (run J es st)"
  by (simp add: run_def wf_fold_step)

subsection \<open>Input and resize frames\<close>

lemma filter_input_no_report:
  "\<not> has_focus_report p \<Longrightarrow> filter_input p = p"
proof (induction p rule: filter_input.induct)
  case (1 a b c us)
  have nm: "\<not> (a = 27 \<and> b = 91 \<and> (c = 73 \<or> c = 79))"
  proof
    assume "a = 27 \<and> b = 91 \<and> (c = 73 \<or> c = 79)"
    then have "a # b # c # us = [] @ [a, b, c] @ us \<and> focus_report [a, b, c]"
      by (auto simp: focus_report_def)
    then show False using "1.prems" unfolding has_focus_report_def by blast
  qed
  have "\<not> has_focus_report (b # c # us)"
  proof
    assume "has_focus_report (b # c # us)"
    then obtain xs x ys where "b # c # us = xs @ x @ ys" "focus_report x"
      unfolding has_focus_report_def by blast
    then have "a # b # c # us = (a # xs) @ x @ ys \<and> focus_report x" by simp
    then show False using "1.prems" unfolding has_focus_report_def by blast
  qed
  with 1 nm show ?case by auto
qed simp_all

lemma filter_input_report:
  "focus_report x \<Longrightarrow> filter_input (xs @ x @ ys) = filter_input xs @ filter_input ys"
  by (induction xs rule: filter_input.induct) (auto simp: focus_report_def)

lemma is_digit_not_ws: "is_digit u \<Longrightarrow> \<not> is_ws u"
  by (auto simp: is_digit_def is_ws_def)


lemma split_comma_single: "44 \<notin> set a \<Longrightarrow> split_comma a = [a]"
  by (induction a) auto

lemma split_comma_field: "44 \<notin> set a \<Longrightarrow> split_comma (a @ 44 # b) = a # split_comma b"
  by (induction a) auto

subsection \<open>The concrete state\<close>

lemma wf_demo_attached: "wf demo_attached"
  by (auto simp: wf_def demo_attached_def demo_session_def demo_conn_def session_ok_def conn_ok_def
        lids_ok_def REPLAY_BUFFER_SIZE_def js_def split: if_splits)

lemma current_alive_conn: "current_alive st c = Some s \<Longrightarrow> conns st c \<noteq> None"
  by (auto simp: current_alive_def split: option.splits)


lemma call_pty_eq:
  "heap st s = Some S \<Longrightarrow>
     call_pty s x st = st\<lparr>heap := (heap st)(s \<mapsto> S\<lparr>pty := (pty S)\<lparr>calls := calls (pty S) @ [x]\<rparr>\<rparr>)\<rparr>"
  by (simp add: call_pty_def upd_session_def)

lemma step_input:
  assumes "current_alive st c = Some s" and "heap st s = Some S"
  shows "step J (Message c (48 # payload)) st =
           (if filter_input payload = [] then st
            else st\<lparr>heap := (heap st)(s \<mapsto>
                   S\<lparr>pty := (pty S)\<lparr>calls := calls (pty S) @ [Write (filter_input payload)]\<rparr>\<rparr>)\<rparr>)"
proof -
  have "step J (Message c (48 # payload)) st = on_input c payload st"
    using current_alive_conn[OF assms(1)] by (auto simp: on_message_def)
  then show ?thesis
    using assms call_pty_eq[OF assms(2)] by (simp add: on_input_def Let_def)
qed

lemma demo_current_alive: "current_alive demo_attached 0 = Some 0"
  by (simp add: current_alive_def demo_attached_def demo_conn_def demo_session_def)

lemma demo_heap: "heap demo_attached 0 = Some demo_session"
  by (simp add: demo_attached_def)

subsection \<open>What the continuation of selectProject does\<close>

lemma resume_eq:
  assumes "n < length (pending st)" and "pending st ! n = (c, k)"
  shows "resume n isDir sp st =
           selectProject_resume c k isDir sp
             (st\<lparr>pending := take n (pending st) @ drop (Suc n) (pending st)\<rparr>)"
  using assms by (simp add: resume_def)

lemma wf_unpend:
  assumes w: "wf st"
  shows "wf (st\<lparr>pending := take n (pending st) @ drop (Suc n) (pending st)\<rparr>)"
proof (rule wf_pending_update[OF w])
  fix x assume "x \<in> set (take n (pending st) @ drop (Suc n) (pending st))"
  then have "x \<in> set (pending st)" by (auto dest: in_set_takeD in_set_dropD)
  then show "conns st (fst x) \<noteq> None" by (rule wf_pending[OF w])
qed

lemma existing_alive_pending [simp]: "existing_alive (st\<lparr>pending := ps\<rparr>) k = existing_alive st k"
  by (simp add: existing_alive_def split: option.splits)

lemma sendControl_frame [simp]:
  "heap (sendControl c m st) = heap st" "sessions (sendControl c m st) = sessions st"
  "pending (sendControl c m st) = pending st" "nextSid (sendControl c m st) = nextSid st"
  "nextLid (sendControl c m st) = nextLid st"
  by (simp_all add: sendControl_def)

lemma conns_sendControl:
  "conns (sendControl c m st) c' =
     (if c' = c then map_option (ws_send (Control m)) (conns st c) else conns st c')"
  by (simp add: sendControl_def)

lemma replay_frame [simp]:
  "heap (replay c s st) = heap st" "sessions (replay c s st) = sessions st"
  "pending (replay c s st) = pending st" "nextSid (replay c s st) = nextSid st"
  "nextLid (replay c s st) = nextLid st"
  by (simp_all add: replay_def split: option.splits)

lemma conns_replay:
  "heap st s = Some S \<Longrightarrow>
     conns (replay c s st) c' =
       (if c' = c \<and> buffer S \<noteq> [] then map_option (ws_send (Raw (buffer S))) (conns st c)
        else conns st c')"
  by (simp add: replay_def)

text \<open>The frames sent on a socket, if it is open.\<close>

lemma ws_send_sent:
  "sent (ws_send x C) = sent C @ (if wsOpen C then [x] else [])"
  by (simp add: ws_send_def)

lemma resume_invalid:
  assumes "n < length (pending st)" and "pending st ! n = (c, k)"
  shows "heap (resume n False sp st) = heap st"
    and "sessions (resume n False sp st) = sessions st"
    and "nextSid (resume n False sp st) = nextSid st"
    and "nextLid (resume n False sp st) = nextLid st"
    and "pending (resume n False sp st) = take n (pending st) @ drop (Suc n) (pending st)"
    and "conns (resume n False sp st) c' =
           (if c' = c
            then map_option (ws_send (Control (ErrorMsg (js ''Not a valid directory: '' @ k))))
                   (conns st c)
            else conns st c')"
  unfolding resume_eq[OF assms] selectProject_resume_def
  by (simp_all add: conns_sendControl)


lemma resume_attached:
  assumes w: "wf st" and n: "n < length (pending st)" "pending st ! n = (c, k)"
    and C: "conns st c = Some C"
    and ex: "existing_alive st k = Some s" and S: "heap st s = Some S"
  shows "sessions (resume n True sp st) = sessions st"
    and "nextSid (resume n True sp st) = nextSid st"
    and "nextLid (resume n True sp st) = Suc (Suc (nextLid st))"
    and "pending (resume n True sp st) = take n (pending st) @ drop (Suc n) (pending st)"
    and "heap (resume n True sp st) s' =
           (if s' = s then Some (subscribe c (nextLid st) (unsubscribe c S))
            else map_option (unsubscribe c) (heap st s'))"
    and "conns (resume n True sp st) c' =
           (if c' = c
            then Some (C\<lparr>sent := sent C @
                          (if wsOpen C
                           then (if buffer S = [] then [] else [Raw (buffer S)])
                                @ [Control (Attached k (pid (pty S)))]
                           else []),
                        disposables := [Disposable s OnData (nextLid st),
                                        Disposable s OnExit (Suc (nextLid st))],
                        currentSession := Some s\<rparr>)
            else conns st c')"
proof -
  let ?st0 = "st\<lparr>pending := take n (pending st) @ drop (Suc n) (pending st)\<rparr>"
  have w0: "wf ?st0" by (rule wf_unpend[OF w])
  have C0: "conns ?st0 c = Some C" using C by simp
  have r: "resume n True sp st =
      sendControl c (Attached k (pid (pty S))) (replay c s (attach c s ?st0))"
    unfolding resume_eq[OF n] selectProject_resume_def using ex S by (simp add: pid_of_def)
  have hp: "heap (attach c s ?st0) s' =
      (if s' = s then Some (subscribe c (nextLid st) (unsubscribe c S))
       else map_option (unsubscribe c) (heap st s'))" for s'
    using heap_attach_wf[OF w0 C0, of s s'] S by simp
  show "sessions (resume n True sp st) = sessions st" unfolding r by simp
  show "nextSid (resume n True sp st) = nextSid st" unfolding r by simp
  show "nextLid (resume n True sp st) = Suc (Suc (nextLid st))" unfolding r by simp
  show "pending (resume n True sp st) = take n (pending st) @ drop (Suc n) (pending st)"
    unfolding r by simp
  show "heap (resume n True sp st) s' =
           (if s' = s then Some (subscribe c (nextLid st) (unsubscribe c S))
            else map_option (unsubscribe c) (heap st s'))"
    unfolding r by (simp add: hp)
  have hs: "heap (attach c s ?st0) s = Some (subscribe c (nextLid st) (unsubscribe c S))"
    using hp[of s] by simp
  show "conns (resume n True sp st) c' =
           (if c' = c
            then Some (C\<lparr>sent := sent C @
                          (if wsOpen C
                           then (if buffer S = [] then [] else [Raw (buffer S)])
                                @ [Control (Attached k (pid (pty S)))]
                           else []),
                        disposables := [Disposable s OnData (nextLid st),
                                        Disposable s OnExit (Suc (nextLid st))],
                        currentSession := Some s\<rparr>)
            else conns st c')"
    unfolding r using C
    by (simp add: conns_sendControl conns_replay[OF hs] conns_attach ws_send_def)
qed


lemma unsubscribe_new_session [simp]: "unsubscribe c (new_session k p l) = new_session k p l"
  by (rule unsubscribe_id) simp_all

lemma resume_spawned:
  assumes w: "wf st" and n: "n < length (pending st)" "pending st ! n = (c, k)"
    and C: "conns st c = Some C"
    and ex: "existing_alive st k = None"
  shows "sessions (resume n True (SpawnOk p) st) = (sessions st)(k \<mapsto> nextSid st)"
    and "nextSid (resume n True (SpawnOk p) st) = Suc (nextSid st)"
    and "nextLid (resume n True (SpawnOk p) st) = Suc (Suc (Suc (Suc (nextLid st))))"
    and "pending (resume n True (SpawnOk p) st) = take n (pending st) @ drop (Suc n) (pending st)"
    and "heap (resume n True (SpawnOk p) st) s' =
           (if s' = nextSid st
            then Some (subscribe c (Suc (Suc (nextLid st))) (new_session k p (nextLid st)))
            else map_option (unsubscribe c) (heap st s'))"
    and "conns (resume n True (SpawnOk p) st) c' =
           (if c' = c
            then Some (C\<lparr>sent := sent C @ (if wsOpen C then [Control (Spawned k p)] else []),
                        disposables := [Disposable (nextSid st) OnData (Suc (Suc (nextLid st))),
                                        Disposable (nextSid st) OnExit (Suc (Suc (Suc (nextLid st))))],
                        currentSession := Some (nextSid st)\<rparr>)
            else conns st c')"
proof -
  let ?st0 = "st\<lparr>pending := take n (pending st) @ drop (Suc n) (pending st)\<rparr>"
  let ?st1 = "snd (spawnSession k p ?st0)"
  have w0: "wf ?st0" by (rule wf_unpend[OF w])
  have none: "sessions ?st0 k = None" using existing_alive_None[OF w ex] by simp
  have w1: "wf ?st1" by (rule wf_spawnSession[OF w0 none])
  have C1: "conns ?st1 c = Some C" using C by simp
  have r: "resume n True (SpawnOk p) st = sendControl c (Spawned k p) (attach c (nextSid st) ?st1)"
    unfolding resume_eq[OF n] selectProject_resume_def using ex by (simp add: split_beta)
  have hp: "heap (attach c (nextSid st) ?st1) s' =
      (if s' = nextSid st
       then Some (subscribe c (Suc (Suc (nextLid st))) (new_session k p (nextLid st)))
       else map_option (unsubscribe c) (heap st s'))" for s'
    using heap_attach_wf[OF w1 C1, of "nextSid st" s'] by simp
  show "sessions (resume n True (SpawnOk p) st) = (sessions st)(k \<mapsto> nextSid st)"
    unfolding r by simp
  show "nextSid (resume n True (SpawnOk p) st) = Suc (nextSid st)" unfolding r by simp
  show "nextLid (resume n True (SpawnOk p) st) = Suc (Suc (Suc (Suc (nextLid st))))"
    unfolding r by simp
  show "pending (resume n True (SpawnOk p) st) = take n (pending st) @ drop (Suc n) (pending st)"
    unfolding r by simp
  show "heap (resume n True (SpawnOk p) st) s' =
           (if s' = nextSid st
            then Some (subscribe c (Suc (Suc (nextLid st))) (new_session k p (nextLid st)))
            else map_option (unsubscribe c) (heap st s'))"
    unfolding r by (simp add: hp)
  show "conns (resume n True (SpawnOk p) st) c' =
           (if c' = c
            then Some (C\<lparr>sent := sent C @ (if wsOpen C then [Control (Spawned k p)] else []),
                        disposables := [Disposable (nextSid st) OnData (Suc (Suc (nextLid st))),
                                        Disposable (nextSid st) OnExit (Suc (Suc (Suc (nextLid st))))],
                        currentSession := Some (nextSid st)\<rparr>)
            else conns st c')"
    unfolding r using C by (simp add: conns_sendControl conns_attach ws_send_def)
qed

lemma select_frame_suspends:
  assumes "conns st c \<noteq> None" and "J payload = Some k" and "k \<noteq> []"
  shows "step J (Message c (50 # payload)) st = (detach c st)\<lparr>pending := pending st @ [(c, k)]\<rparr>"
  using assms by (auto simp: on_message_def on_select_def selectProject_def)


lemma wf_demo_two_selects: "wf demo_two_selects"
  by (auto simp: wf_def demo_two_selects_def demo_conn_new_def session_ok_def conn_ok_def
        split: if_splits)

lemma wf_pending_conn:
  assumes "wf st" "n < length (pending st)" "pending st ! n = (c, k)"
  shows "\<exists>C. conns st c = Some C"
proof -
  have "(c, k) \<in> set (pending st)" using assms(2,3) by (metis nth_mem)
  from wf_pending[OF assms(1) this] show ?thesis by auto
qed


text \<open>After a valid directory was selected and the process started, the connection is attached.\<close>

lemma resume_valid_result:
  assumes w: "wf st" and n: "n < length (pending st)" "pending st ! n = (c, k)"
    and C: "conns st c = Some C"
  shows "\<exists>s S' C'. conns (resume n True (SpawnOk p) st) c = Some C'
           \<and> currentSession C' = Some s \<and> wsOpen C' = wsOpen C
           \<and> sessions (resume n True (SpawnOk p) st) k = Some s
           \<and> heap (resume n True (SpawnOk p) st) s = Some S' \<and> alive S' \<and> cwd S' = k
           \<and> (sent C' = sent C @ (if wsOpen C then [Control (Spawned k p)] else [])
               \<or> sent C' = sent C @ (if wsOpen C
                    then (if buffer S' = [] then [] else [Raw (buffer S')])
                         @ [Control (Attached k (pid (pty S')))]
                    else []))"
proof (cases "existing_alive st k")
  case (Some s)
  from existing_alive_Some[OF w Some] obtain S where
    S: "heap st s = Some S" "sessions st k = Some s" "alive S" "cwd S = k" by blast
  note r = resume_attached[OF w n C Some S(1), of "SpawnOk p"]
  show ?thesis
    apply (rule exI[of _ s], rule exI[of _ "subscribe c (nextLid st) (unsubscribe c S)"])
    using S by (simp add: r)
next
  case None
  note r = resume_spawned[OF w n C None, of p]
  show ?thesis
    apply (rule exI[of _ "nextSid st"],
        rule exI[of _ "subscribe c (Suc (Suc (nextLid st))) (new_session k p (nextLid st))"])
    by (simp add: r)
qed

lemma demo_two_selects_facts:
  "0 < length (pending demo_two_selects)" "pending demo_two_selects ! 0 = (0, js ''/b'')"
  "Suc 0 < length (pending demo_two_selects)" "pending demo_two_selects ! Suc 0 = (1, js ''/b'')"
  "conns demo_two_selects 0 = Some demo_conn_new" "conns demo_two_selects 1 = Some demo_conn_new"
  "existing_alive demo_two_selects (js ''/b'') = None"
  "heap demo_two_selects = Map.empty" "nextSid demo_two_selects = 0" "nextLid demo_two_selects = 0"
  by (simp_all add: demo_two_selects_def existing_alive_def)

lemma demo_attached_facts:
  "conns demo_attached 0 = Some demo_conn" "currentSession demo_conn = Some 0"
  "alive demo_session" "cwd demo_session = js ''/a''" "js ''/a'' \<noteq> []"
  "pending demo_attached = []" "nextLid demo_attached = 4"
  by (simp_all add: demo_attached_def demo_conn_def demo_session_def js_def)

subsection \<open>Detaching\<close>

lemma unsubscribed_only_unsubscribe: "unsubscribed_only c S (unsubscribe c S)"
  by (simp add: unsubscribed_only_def)

lemma only_unsubscribesI:
  assumes "sessions st' = sessions st"
    and "\<And>s. heap st' s = map_option (unsubscribe c) (heap st s)"
  shows "only_unsubscribes c st st'"
  unfolding only_unsubscribes_def
  using assms by (auto simp: unsubscribed_only_unsubscribe split: option.splits)

lemma heap_on_close_wf:
  assumes w: "wf st" and C: "conns st c = Some C"
  shows "heap (on_close c st) s = map_option (unsubscribe c) (heap st s)"
proof -
  let ?st0 = "upd_conn c (\<lambda>C. C\<lparr>wsOpen := False\<rparr>) st"
  have w0: "wf ?st0" by (rule wf_upd_conn[OF w]) simp_all
  have C0: "conns ?st0 c = Some (C\<lparr>wsOpen := False\<rparr>)" using C by simp
  show ?thesis unfolding on_close_def heap_detach_wf[OF w0 C0] by simp
qed

lemma on_close_frame [simp]:
  "sessions (on_close c st) = sessions st" "pending (on_close c st) = pending st"
  "nextSid (on_close c st) = nextSid st" "nextLid (on_close c st) = nextLid st"
  by (simp_all add: on_close_def)

subsection \<open>How many listeners a connection has on a session\<close>






subsection \<open>What the exit of a process does\<close>



lemma bitlen_nonpos [simp]: "n \<le> 0 \<Longrightarrow> bitlen n = 0"
  by (simp add: bitlen.simps[of n])


lemma bitlen_ge: "0 < n \<Longrightarrow> 2 ^ (bitlen n - 1) \<le> n"
proof (induction n rule: bitlen.induct)
  case (1 n)
  show ?case
  proof (cases "n div 2 \<le> 0")
    case True
    then have "bitlen (n div 2) = 0" by simp
    then show ?thesis using 1(2) by (simp add: bitlen.simps[of n])
  next
    case False
    then have pos: "0 < n div 2" by simp
    from 1(1)[OF _ pos] 1(2) have le: "2 ^ (bitlen (n div 2) - 1) \<le> n div 2" by simp
    have b: "bitlen (n div 2) \<noteq> 0" using False by (simp add: bitlen.simps[of "n div 2"])
    have "bitlen n - 1 = Suc (bitlen (n div 2) - 1)"
      using 1(2) b by (simp add: bitlen.simps[of n])
    then have "(2::int) ^ (bitlen n - 1) = 2 * 2 ^ (bitlen (n div 2) - 1)" by simp
    also have "\<dots> \<le> 2 * (n div 2)" using le by simp
    also have "\<dots> \<le> n" by simp
    finally show ?thesis .
  qed
qed


lemma to_double_cases:
  assumes "\<not> bitlen n \<le> 53"
  obtains "to_double n = PosInf" | w where "0 < w" and "to_double n = Num w"
proof -
  from assms have n: "0 < n" by (cases "n \<le> 0") simp_all
  define e where "e = bitlen n - 53"
  define q where "q = n div 2 ^ e"
  define q' where "q' = (if n mod 2 ^ e > 2 ^ (e - 1) \<or> (n mod 2 ^ e = 2 ^ (e - 1) \<and> odd q)
    then q + 1 else q)"
  define w where "w = q' * 2 ^ e"
  have "(2::int) ^ e \<le> 2 ^ (bitlen n - 1)" unfolding e_def by (rule power_increasing) simp_all
  also have "\<dots> \<le> n" by (rule bitlen_ge[OF n])
  finally have "2 ^ e \<le> n" .
  then have "0 < q" unfolding q_def by (simp add: pos_imp_zdiv_pos_iff)
  then have "0 < q'" by (simp add: q'_def)
  then have w: "0 < w" by (simp add: w_def)
  have td: "to_double n = (if w \<ge> 2 ^ 1024 then PosInf else Num w)"
    using assms unfolding to_double_def Let_def w_def q'_def q_def e_def by simp
  show ?thesis
  proof (cases "w \<ge> 2 ^ 1024")
    case True
    then show ?thesis using td that(1) by simp
  next
    case False
    then show ?thesis using td that(2)[OF w] by simp
  qed
qed

lemma positive_to_double: "positive (Some (to_double n)) \<longleftrightarrow> 0 < n"
proof (cases "bitlen n \<le> 53")
  case True
  then show ?thesis by (simp add: to_double_def)
next
  case False
  then have n: "0 < n" by (cases "n \<le> 0") simp_all
  from False have "positive (Some (to_double n))" by (rule to_double_cases) simp_all
  with n show ?thesis by simp
qed


lemma parseInt_begins:
  assumes r: "begins_with_positive x n"
  shows "parseInt x = Some n \<and> positive (Some n)"
proof -
  from r obtain ws sg ds rest where x: "x = Some (ws @ sg @ ds @ rest)"
    and ws: "\<forall>u \<in> set ws. is_ws u" and sg: "sg = [] \<or> sg = [43]"
    and ds: "ds \<noteq> []" "\<forall>u \<in> set ds. is_digit u" and rest: "rest = [] \<or> \<not> is_digit (hd rest)"
    and n: "n = to_double (digits_value 0 ds)" "digits_value 0 ds > 0"
    unfolding begins_with_positive_def by blast
  have dd: "is_digit (hd ds)" using ds by (cases ds) auto
  have d_nws: "\<not> is_ws (hd ds)" by (rule is_digit_not_ws[OF dd])
  have d_ns: "hd ds \<noteq> 43" "hd ds \<noteq> 45" using dd by (simp_all add: is_digit_def)
  have p_nws: "\<not> is_ws 43" by (simp add: is_ws_def)
  have tw: "takeWhile is_digit (ds @ rest) = ds"
  proof -
    have "takeWhile is_digit rest = []" using rest by (cases rest) auto
    then show ?thesis using ds(2) by (simp add: takeWhile_append2)
  qed
  have dw: "dropWhile is_ws (ws @ ys) = dropWhile is_ws ys" for ys
    using ws by (simp add: dropWhile_append)
  have keep: "dropWhile is_ws (ds @ rest) = ds @ rest"
    using ds(1) d_nws by (cases ds) auto
  have pos: "positive (Some n)" using n by (simp add: positive_to_double)
  from sg show ?thesis
  proof
    assume e: "sg = []"
    have t: "dropWhile is_ws (ws @ sg @ ds @ rest) = ds @ rest"
      unfolding dw e using keep by simp
    have "parseInt x = Some (to_double (digits_value 0 ds))"
      unfolding x parseInt_def option.case Let_def t using d_ns ds(1) by (simp add: tw)
    then show ?thesis using n pos by simp
  next
    assume e: "sg = [43]"
    have t: "dropWhile is_ws (ws @ sg @ ds @ rest) = 43 # (ds @ rest)"
      unfolding dw e using p_nws by simp
    have "parseInt x = Some (to_double (digits_value 0 ds))"
      unfolding x parseInt_def option.case Let_def t using ds(1) by (simp add: tw)
    then show ?thesis using n pos by simp
  qed
qed



lemma begins_with_positive_unique:
  "begins_with_positive x m \<Longrightarrow> begins_with_positive x n \<Longrightarrow> m = n"
  using parseInt_begins[of x m] parseInt_begins[of x n] by simp






subsection \<open>Buffers of concrete sizes\<close>

lemma utf8_length_append [simp]: "utf8_length (a @ b) = utf8_length a + utf8_length b"
  by (simp add: utf8_length_def)

lemma utf8_length_replicate [simp]: "utf8_length (replicate n u) = n * unit_bytes u"
  by (simp add: utf8_length_def sum_list_replicate)

lemma suffix_of_length:
  assumes "xs = ev @ b"
  shows "b = drop (length xs - length b) xs"
  using assms by simp

lemma demo_buffer: "buffer demo_session = js ''hello''"
  by (simp add: demo_session_def)

lemma buffer_after_data:
  "buffer (the (heap (step J (PtyData 0 d) demo_attached) 0)) = append_output (js ''hello'') d"
  by (simp add: heap_pty_data[OF wf_demo_attached demo_heap] demo_buffer)

lemma length_js_hello: "length (js ''hello'') = 5"
  by (simp add: js_def)

lemma append_output_hello_trim:
  assumes "98300 \<le> n"
  shows "append_output (js ''hello'') (replicate n u) = replicate 65536 u"
proof -
  have "append_output (js ''hello'') (replicate n u)
      = drop (5 + n - 65536) (js ''hello'' @ replicate n u)"
    using assms
    by (simp add: append_output_def Let_def slice_last_def REPLAY_BUFFER_SIZE_def length_js_hello)
  also have "\<dots> = drop (n - 65536) (replicate n u)"
    using assms by (simp add: length_js_hello)
  also have "\<dots> = replicate 65536 u"
    using assms by simp
  finally show ?thesis .
qed

lemma length_concat_pairs: "length (concat (replicate n [a, b])) = 2 * n"
  by (induction n) simp_all

lemma slice_last_suffix: "length b = n \<Longrightarrow> slice_last n (ev @ b) = b"
  by (simp add: slice_last_def)

lemma append_output_split_pair:
  "append_output (js ''hello'') (concat (replicate 50000 [55357, 56832]) @ [97])
     = 56832 # concat (replicate 32767 [55357, 56832]) @ [97]"
proof -
  let ?p = "[55357, 56832] :: nat list"
  let ?b = "56832 # concat (replicate 32767 ?p) @ [97]"
  have "replicate 50000 ?p = replicate 17232 ?p @ replicate 1 ?p @ replicate 32767 ?p"
    by (simp only: replicate_add[symmetric]) simp
  then have "concat (replicate 50000 ?p) =
      concat (replicate 17232 ?p) @ ?p @ concat (replicate 32767 ?p)"
    by simp
  then have cut: "js ''hello'' @ concat (replicate 50000 ?p) @ [97]
      = (js ''hello'' @ concat (replicate 17232 ?p) @ [55357]) @ ?b"
    by simp
  have len: "length ?b = REPLAY_BUFFER_SIZE"
    by (simp add: length_concat_pairs REPLAY_BUFFER_SIZE_def)
  have big: "2 * length (js ''hello'' @ concat (replicate 50000 ?p) @ [97]) > 3 * REPLAY_BUFFER_SIZE"
    by (simp add: length_concat_pairs length_js_hello REPLAY_BUFFER_SIZE_def)
  have "append_output (js ''hello'') (concat (replicate 50000 ?p) @ [97])
      = slice_last REPLAY_BUFFER_SIZE (js ''hello'' @ concat (replicate 50000 ?p) @ [97])"
    using big unfolding append_output_def Let_def by simp
  also have "\<dots> = ?b"
    unfolding cut by (rule slice_last_suffix[OF len])
  finally show ?thesis .
qed

subsection \<open>Attached connections\<close>



section \<open>The claims\<close>

text \<open>
  Every state the server reaches from \<open>init\<close> is well-formed (\<open>wf_run\<close> with
  \<open>wf_init\<close>), so a theorem about well-formed states is a theorem about every state
  of the running server.
\<close>

subsection \<open>The replay buffer\<close>

text \<open>
  C5, as amended. After every chunk of output (the event \<open>PtyData s d\<close>), the buffer of
  the session is at most one and a half times \<open>REPLAY_BUFFER_SIZE\<close> (65536) long, its
  length counted in code units of the JavaScript string, not in bytes. If appending the
  chunk took it beyond that, the buffer is cut to exactly \<open>REPLAY_BUFFER_SIZE\<close> code
  units, and what is dropped is a prefix of the old buffer followed by the chunk: the
  earliest output. Otherwise the chunk is appended and nothing is dropped.
\<close>

theorem replay_buffer_bounded:
  assumes "wf st" and "heap st s = Some S"
  shows "\<exists>S'. heap (step J (PtyData s d) st) s = Some S'
           \<and> 2 * length (buffer S') \<le> 3 * REPLAY_BUFFER_SIZE
           \<and> (if 2 * length (buffer S @ d) > 3 * REPLAY_BUFFER_SIZE
              then length (buffer S') = REPLAY_BUFFER_SIZE
                   \<and> (\<exists>evicted. buffer S @ d = evicted @ buffer S')
              else buffer S' = buffer S @ d)"
proof -
  let ?b = "append_output (buffer S) d"
  have h: "heap (step J (PtyData s d) st) s = Some (S\<lparr>buffer := ?b\<rparr>)"
    by (simp add: heap_pty_data[OF assms])
  have "\<exists>evicted. buffer S @ d = evicted @ ?b"
    if "2 * length (buffer S @ d) > 3 * REPLAY_BUFFER_SIZE"
    using append_output_trim[OF that] by metis
  then show ?thesis
    using h length_append_output[of "buffer S" d] append_output_trim[of "buffer S" d]
      append_output_keep[of "buffer S" d]
    by (cases "2 * length (buffer S @ d) > 3 * REPLAY_BUFFER_SIZE") simp_all
qed

text \<open>
  On \<open>demo_attached\<close>, whose buffer holds \<^verbatim>\<open>hello\<close>: a chunk of 100000 letters takes
  the buffer beyond the bound, and it is cut to the last 65536 of them, \<^verbatim>\<open>hello\<close> and
  the first 34464 letters being dropped; a short chunk is appended.
\<close>

theorem replay_buffer_bounded_witness:
  "wf demo_attached \<and> heap demo_attached 0 = Some demo_session
   \<and> buffer demo_session = js ''hello''
   \<and> (\<exists>S'. heap (step payload_is_cwd (PtyData 0 (replicate 100000 97)) demo_attached) 0 = Some S'
         \<and> buffer S' = replicate 65536 97
         \<and> js ''hello'' @ replicate 100000 97 = (js ''hello'' @ replicate 34464 97) @ buffer S')
   \<and> (\<exists>S'. heap (step payload_is_cwd (PtyData 0 (js '' world'')) demo_attached) 0 = Some S'
         \<and> buffer S' = js ''hello world'')"
proof -
  have big: "2 * length (buffer demo_session @ replicate 100000 97) > 3 * REPLAY_BUFFER_SIZE"
    by (simp add: demo_buffer length_js_hello REPLAY_BUFFER_SIZE_def)
  from replay_buffer_bounded[OF wf_demo_attached demo_heap, of payload_is_cwd "replicate 100000 97"] big
  obtain S' ev where S': "heap (step payload_is_cwd (PtyData 0 (replicate 100000 97)) demo_attached) 0 = Some S'"
    and len: "length (buffer S') = REPLAY_BUFFER_SIZE"
    and ev: "buffer demo_session @ replicate 100000 97 = ev @ buffer S'"
    by auto
  have "buffer S' = drop (length (buffer demo_session @ replicate 100000 97) - length (buffer S'))
      (buffer demo_session @ replicate 100000 97)"
    by (rule suffix_of_length[OF ev])
  also have "\<dots> = drop 34469 (js ''hello'' @ replicate 100000 97)"
    by (simp add: len demo_buffer length_js_hello REPLAY_BUFFER_SIZE_def)
  also have "\<dots> = replicate 65536 97"
    by (simp add: length_js_hello)
  finally have b: "buffer S' = replicate 65536 97" .
  have "replicate 100000 (97::nat) = replicate 34464 97 @ replicate 65536 97"
    by (simp add: replicate_add[symmetric])
  then have c: "js ''hello'' @ replicate 100000 97 = (js ''hello'' @ replicate 34464 97) @ buffer S'"
    by (simp add: b)
  have small: "\<not> 2 * length (buffer demo_session @ js '' world'') > 3 * REPLAY_BUFFER_SIZE"
    by (simp add: demo_session_def js_def REPLAY_BUFFER_SIZE_def)
  have cat: "buffer demo_session @ js '' world'' = js ''hello world''"
    by (simp add: demo_session_def js_def)
  from replay_buffer_bounded[OF wf_demo_attached demo_heap, of payload_is_cwd "js '' world''"] small cat
  have d: "\<exists>S'. heap (step payload_is_cwd (PtyData 0 (js '' world'')) demo_attached) 0 = Some S'
         \<and> buffer S' = js ''hello world''" by auto
  from S' b c d show ?thesis using wf_demo_attached demo_heap demo_buffer by auto
qed

text \<open>
  The claim as the specification words it counts bytes. A chunk of 40000 euro signs
  (\<open>U+20AC\<close>, three bytes each in UTF-8) after \<^verbatim>\<open>hello\<close> is kept whole, 120005 bytes,
  more than one and a half times 64 KiB; after a chunk of 100000 times \<^verbatim>\<open>e\<close> with
  acute accent (\<open>U+00E9\<close>, two bytes each) the buffer is cut to 65536 code units, which
  are 131072 bytes, twice 64 KiB; and after a chunk of 50000 characters \<open>U+1F600\<close> (a
  surrogate pair each) and a letter, what is kept begins with the second half of a pair.
\<close>

theorem replay_buffer_exceeds_bytes:
  "buffer (the (heap (step payload_is_cwd (PtyData 0 (replicate 40000 8364)) demo_attached) 0))
     = js ''hello'' @ replicate 40000 8364
   \<and> utf8_length (js ''hello'' @ replicate 40000 8364) = 120005
   \<and> 2 * utf8_length (js ''hello'' @ replicate 40000 8364) > 3 * REPLAY_BUFFER_SIZE
   \<and> buffer (the (heap (step payload_is_cwd (PtyData 0 (replicate 100000 233)) demo_attached) 0))
     = replicate 65536 233
   \<and> utf8_length (replicate 65536 233) = 2 * REPLAY_BUFFER_SIZE
   \<and> buffer (the (heap (step payload_is_cwd
         (PtyData 0 (concat (replicate 50000 [55357, 56832]) @ [97])) demo_attached) 0))
     = 56832 # concat (replicate 32767 [55357, 56832]) @ [97]"
proof -
  have a: "append_output (js ''hello'') (replicate 40000 8364) = js ''hello'' @ replicate 40000 8364"
    by (rule append_output_keep) (simp add: length_js_hello REPLAY_BUFFER_SIZE_def)
  have h: "utf8_length (js ''hello'') = 5"
    by (simp add: utf8_length_def js_def unit_bytes_def)
  have b: "utf8_length (js ''hello'' @ replicate 40000 8364) = 120005"
    by (simp add: h unit_bytes_def)
  have c: "append_output (js ''hello'') (replicate 100000 233) = replicate 65536 233"
    by (rule append_output_hello_trim) simp
  have d: "utf8_length (replicate 65536 233) = 2 * REPLAY_BUFFER_SIZE"
    by (simp add: unit_bytes_def REPLAY_BUFFER_SIZE_def)
  show ?thesis
    unfolding buffer_after_data a c append_output_split_pair
    using b d by (simp add: REPLAY_BUFFER_SIZE_def)
qed

subsection \<open>Input frames\<close>

text \<open>
  C8, as amended. An input frame (tag \<^verbatim>\<open>0\<close>, code unit 48) on a connection whose
  current session is alive writes to the process the payload without its focus reports
  (\<^verbatim>\<open>ESC [ I\<close> and \<^verbatim>\<open>ESC [ O\<close>), and writes nothing when nothing is left: a
  payload without a focus report is written as it is, and a payload with a focus report
  in it is written as what is left of the part before it followed by what is left of the
  part behind it. Nothing else in the state changes.
\<close>

theorem input_strips_focus_reports:
  assumes "current_alive st c = Some s" and "heap st s = Some S"
  shows "step J (Message c (48 # payload)) st =
           (if filter_input payload = [] then st
            else st\<lparr>heap := (heap st)(s \<mapsto>
                   S\<lparr>pty := (pty S)\<lparr>calls := calls (pty S) @ [Write (filter_input payload)]\<rparr>\<rparr>)\<rparr>)
         \<and> (\<not> has_focus_report payload \<longrightarrow> filter_input payload = payload)
         \<and> (\<forall>xs x ys. payload = xs @ x @ ys \<and> focus_report x \<longrightarrow>
               filter_input payload = filter_input xs @ filter_input ys)"
  using step_input[OF assms] by (auto simp: filter_input_no_report filter_input_report)

theorem input_strips_focus_reports_witness:
  "current_alive demo_attached 0 = Some 0 \<and> heap demo_attached 0 = Some demo_session
   \<and> step payload_is_cwd (Message 0 (48 # js ''a'' @ [27, 91, 73] @ js ''b'')) demo_attached =
       demo_attached\<lparr>heap := (heap demo_attached)(0 \<mapsto>
         demo_session\<lparr>pty := (pty demo_session)\<lparr>calls :=
           calls (pty demo_session) @ [Write (js ''ab'')]\<rparr>\<rparr>)\<rparr>"
proof -
  have f: "filter_input (js ''a'' @ [27, 91, 73] @ js ''b'') = js ''ab''"
    by (simp add: js_def)
  from input_strips_focus_reports[OF demo_current_alive demo_heap,
      of payload_is_cwd "js ''a'' @ [27, 91, 73] @ js ''b''"]
  show ?thesis unfolding f using demo_current_alive demo_heap by (simp add: js_def)
qed

text \<open>
  C8 as stated fails: the sequences removed are not those that toggle bracketed paste
  mode. An input frame carrying \<^verbatim>\<open>ESC [ ? 2 0 0 4 h\<close> is written to the process as
  it is.
\<close>

theorem input_keeps_paste_mode_toggle:
  "paste_mode_on = [27, 91, 63, 50, 48, 48, 52, 104]
   \<and> calls (pty (the (heap demo_attached 0))) = []
   \<and> calls (pty (the (heap (step payload_is_cwd (Message 0 (48 # paste_mode_on)) demo_attached) 0)))
       = [Write paste_mode_on]"
proof -
  have p: "paste_mode_on = [27, 91, 63, 50, 48, 48, 52, 104]"
    by (simp add: paste_mode_on_def js_def)
  have f: "filter_input paste_mode_on = paste_mode_on" unfolding p by simp
  have ne: "paste_mode_on \<noteq> []" unfolding p by simp
  have c: "calls (pty demo_session) = []" by (simp add: demo_session_def)
  have "calls (pty (the (heap (step payload_is_cwd (Message 0 (48 # paste_mode_on)) demo_attached) 0)))
       = [Write paste_mode_on]"
    unfolding step_input[OF demo_current_alive demo_heap] f by (simp add: ne c)
  with p c show ?thesis by (simp add: demo_heap)
qed

subsection \<open>Selecting a project\<close>



text \<open>
  C6. When the call for connection \<open>c\<close> and cwd \<open>k\<close> resumes with the answer that \<open>k\<close>
  is not a directory, the connection is sent an \<^verbatim>\<open>error\<close> message (if its socket is
  open), and nothing else changes: no session is created, no session is altered, and
  \<^verbatim>\<open>sessions\<close> is as it was. The connection stays usable: when it next sends a select
  frame for a cwd \<open>k2\<close> and that call resumes with the answer that \<open>k2\<close> is a
  directory (and \<^verbatim>\<open>pty.spawn\<close>, if called, returns a process), the connection is
  attached to a live session stored under \<open>k2\<close>, and the last frames sent to it are
  \<^verbatim>\<open>spawned\<close>, or the replay and \<^verbatim>\<open>attached\<close>.
\<close>

theorem select_invalid_directory:
  assumes "wf st" and "n < length (pending st)" and "pending st ! n = (c, k)"
  shows "\<exists>C. conns st c = Some C \<and>
     (let st' = step J (StatDone n False sp) st in
        heap st' = heap st \<and> sessions st' = sessions st \<and> nextSid st' = nextSid st
        \<and> conns st' c =
            Some (C\<lparr>sent := sent C @
                     (if wsOpen C
                      then [Control (ErrorMsg (js ''Not a valid directory: '' @ k))] else [])\<rparr>)
        \<and> (\<forall>c'. c' \<noteq> c \<longrightarrow> conns st' c' = conns st c')
        \<and> (\<forall>payload k2 p. J payload = Some k2 \<and> k2 \<noteq> [] \<longrightarrow>
             (let st2 = step J (Message c (50 # payload)) st';
                  st3 = step J (StatDone (length (pending st')) True (SpawnOk p)) st2
              in \<exists>s S3 C3. conns st3 c = Some C3 \<and> currentSession C3 = Some s
                   \<and> sessions st3 k2 = Some s \<and> heap st3 s = Some S3 \<and> alive S3 \<and> cwd S3 = k2
                   \<and> (wsOpen C \<longrightarrow>
                        (\<exists>pre. sent C3 = pre @ [Control (Spawned k2 p)]
                             \<or> sent C3 = pre @ [Control (Attached k2 (pid (pty S3)))])))))"
proof -
  from wf_pending_conn[OF assms] obtain C where C: "conns st c = Some C" by blast
  let ?st' = "step J (StatDone n False sp) st"
  note r = resume_invalid[OF assms(2,3), of sp]
  have w': "wf ?st'" using wf_step[OF assms(1)] by blast
  have C': "conns ?st' c = Some (ws_send (Control (ErrorMsg (js ''Not a valid directory: '' @ k))) C)"
    using C by (simp add: r)
  have later: "\<exists>s S3 C3. conns st3 c = Some C3 \<and> currentSession C3 = Some s
                   \<and> sessions st3 k2 = Some s \<and> heap st3 s = Some S3 \<and> alive S3 \<and> cwd S3 = k2
                   \<and> (wsOpen C \<longrightarrow>
                        (\<exists>pre. sent C3 = pre @ [Control (Spawned k2 p)]
                             \<or> sent C3 = pre @ [Control (Attached k2 (pid (pty S3)))]))"
    if J: "J payload = Some k2" "k2 \<noteq> []"
      and st3: "st3 = step J (StatDone (length (pending ?st')) True (SpawnOk p))
                        (step J (Message c (50 # payload)) ?st')"
    for payload k2 p st3
  proof -
    let ?st2 = "step J (Message c (50 # payload)) ?st'"
    have ne: "conns ?st' c \<noteq> None" using C' by simp
    have e2: "?st2 = (detach c ?st')\<lparr>pending := pending ?st' @ [(c, k2)]\<rparr>"
      by (rule select_frame_suspends[where J = J and payload = payload and k = k2, OF ne J])
    have w2: "wf ?st2" using wf_step[OF w'] by blast
    have p2: "length (pending ?st') < length (pending ?st2)"
      "pending ?st2 ! length (pending ?st') = (c, k2)"
      unfolding e2 by simp_all
    define C2 where "C2 = (ws_send (Control (ErrorMsg (js ''Not a valid directory: '' @ k))) C)
        \<lparr>disposables := [], currentSession := None\<rparr>"
    have c2: "conns ?st2 c = Some C2"
      unfolding e2 C2_def using C' by (simp add: conns_detach)
    have o2: "wsOpen C2 = wsOpen C" by (simp add: C2_def)
    from resume_valid_result[OF w2 p2 c2, of p]
    obtain s S3 C3 where x: "conns st3 c = Some C3" "currentSession C3 = Some s"
      "wsOpen C3 = wsOpen C2" "sessions st3 k2 = Some s" "heap st3 s = Some S3" "alive S3"
      "cwd S3 = k2"
      "sent C3 = sent C2 @ (if wsOpen C2 then [Control (Spawned k2 p)] else [])
       \<or> sent C3 = sent C2 @ (if wsOpen C2
            then (if buffer S3 = [] then [] else [Raw (buffer S3)])
                 @ [Control (Attached k2 (pid (pty S3)))]
            else [])"
      unfolding st3 step.simps by blast
    have "\<exists>pre. sent C3 = pre @ [Control (Spawned k2 p)]
             \<or> sent C3 = pre @ [Control (Attached k2 (pid (pty S3)))]" if "wsOpen C"
    proof -
      from x(8) show ?thesis
      proof
        assume "sent C3 = sent C2 @ (if wsOpen C2 then [Control (Spawned k2 p)] else [])"
        then have "sent C3 = sent C2 @ [Control (Spawned k2 p)]" using that o2 by simp
        then show ?thesis by blast
      next
        assume "sent C3 = sent C2 @ (if wsOpen C2
            then (if buffer S3 = [] then [] else [Raw (buffer S3)])
                 @ [Control (Attached k2 (pid (pty S3)))]
            else [])"
        then have "sent C3 = (sent C2 @ (if buffer S3 = [] then [] else [Raw (buffer S3)]))
            @ [Control (Attached k2 (pid (pty S3)))]" using that o2 by simp
        then show ?thesis by blast
      qed
    qed
    with x show ?thesis by blast
  qed
  have main: "heap ?st' = heap st \<and> sessions ?st' = sessions st \<and> nextSid ?st' = nextSid st
        \<and> conns ?st' c =
            Some (C\<lparr>sent := sent C @
                     (if wsOpen C
                      then [Control (ErrorMsg (js ''Not a valid directory: '' @ k))] else [])\<rparr>)
        \<and> (\<forall>c'. c' \<noteq> c \<longrightarrow> conns ?st' c' = conns st c')"
    using C by (simp add: r ws_send_def)
  show ?thesis
    apply (rule exI[of _ C])
    unfolding Let_def using C main later by blast
qed

theorem select_invalid_directory_witness:
  "wf demo_two_selects \<and> 0 < length (pending demo_two_selects)
   \<and> pending demo_two_selects ! 0 = (0, js ''/b'')
   \<and> heap (step payload_is_cwd (StatDone 0 False (SpawnOk 78)) demo_two_selects) = Map.empty
   \<and> sessions (step payload_is_cwd (StatDone 0 False (SpawnOk 78)) demo_two_selects) =
       sessions demo_two_selects
   \<and> conns (step payload_is_cwd (StatDone 0 False (SpawnOk 78)) demo_two_selects) 0 =
       Some \<lparr>wsOpen = True,
             sent = [Control Ready, Control (ErrorMsg (js ''Not a valid directory: /b''))],
             currentSession = None, disposables = []\<rparr>"
proof -
  from select_invalid_directory[OF wf_demo_two_selects demo_two_selects_facts(1,2),
      of payload_is_cwd "SpawnOk 78"]
  have "heap (step payload_is_cwd (StatDone 0 False (SpawnOk 78)) demo_two_selects) = Map.empty
   \<and> sessions (step payload_is_cwd (StatDone 0 False (SpawnOk 78)) demo_two_selects) =
       sessions demo_two_selects
   \<and> conns (step payload_is_cwd (StatDone 0 False (SpawnOk 78)) demo_two_selects) 0 =
       Some (demo_conn_new\<lparr>sent := sent demo_conn_new @
              (if wsOpen demo_conn_new
               then [Control (ErrorMsg (js ''Not a valid directory: '' @ js ''/b''))] else [])\<rparr>)"
    unfolding Let_def demo_two_selects_facts by auto
  then show ?thesis
    using wf_demo_two_selects demo_two_selects_facts(1,2)
    by (simp add: demo_conn_new_def js_def)
qed

text \<open>
  C10. A connection whose current session \<open>s\<close> is alive sends a select frame for the
  cwd of that very session, and the suspended call resumes next with the answer that
  it is a directory. The frame first detaches the connection (no current session, its
  listeners removed); the continuation attaches it to the same session again, with newly
  registered listeners, and sends the whole buffer once more (unless it is empty) and
  then \<^verbatim>\<open>attached\<close>; no session is created. Frames are sent only while the socket is
  open.
\<close>

theorem reselect_same_cwd_replays:
  assumes "wf st" and "conns st c = Some C" and "currentSession C = Some s"
    and "heap st s = Some S" and "alive S" and "J payload = Some (cwd S)" and "cwd S \<noteq> []"
  shows "let st1 = step J (Message c (50 # payload)) st;
             st2 = step J (StatDone (length (pending st)) True sp) st1
         in conns st1 c = Some (C\<lparr>disposables := [], currentSession := None\<rparr>)
          \<and> heap st1 s = Some (unsubscribe c S)
          \<and> heap st2 s = Some (subscribe c (nextLid st) (unsubscribe c S))
          \<and> conns st2 c =
              Some (C\<lparr>sent := sent C @
                         (if wsOpen C
                          then (if buffer S = [] then [] else [Raw (buffer S)])
                               @ [Control (Attached (cwd S) (pid (pty S)))]
                          else []),
                       disposables := [Disposable s OnData (nextLid st),
                                       Disposable s OnExit (Suc (nextLid st))],
                       currentSession := Some s\<rparr>)
          \<and> sessions st2 = sessions st \<and> nextSid st2 = nextSid st"
proof -
  let ?st1 = "step J (Message c (50 # payload)) st"
  have ne: "conns st c \<noteq> None" using assms(2) by simp
  have e1: "?st1 = (detach c st)\<lparr>pending := pending st @ [(c, cwd S)]\<rparr>"
    by (rule select_frame_suspends[where J = J and payload = payload and k = "cwd S",
          OF ne assms(6,7)])
  have w1: "wf ?st1" using wf_step[OF assms(1)] by blast
  have c1: "conns ?st1 c = Some (C\<lparr>disposables := [], currentSession := None\<rparr>)"
    unfolding e1 using assms(2) by (simp add: conns_detach)
  have h1: "heap ?st1 s' = map_option (unsubscribe c) (heap st s')" for s'
    unfolding e1 by (simp add: heap_detach_wf[OF assms(1,2)])
  have hs: "heap ?st1 s = Some (unsubscribe c S)" using h1[of s] assms(4) by simp
  have reg: "sessions st (cwd S) = Some s"
    by (rule session_ok_alive[OF wf_session_ok[OF assms(1,4)] assms(5)])
  have ex: "existing_alive ?st1 (cwd S) = Some s"
    unfolding existing_alive_def using reg hs assms(5) unfolding e1 by simp
  have p1: "length (pending st) < length (pending ?st1)"
    "pending ?st1 ! length (pending st) = (c, cwd S)"
    unfolding e1 by simp_all
  have l1: "nextLid ?st1 = nextLid st" "sessions ?st1 = sessions st" "nextSid ?st1 = nextSid st"
    unfolding e1 by simp_all
  note r = resume_attached[OF w1 p1 c1 ex hs, of sp]
  have us: "unsubscribe c (unsubscribe c S) = unsubscribe c S"
    by (simp add: unsubscribe_def)
  show ?thesis
    unfolding Let_def step.simps(4)
    using c1 hs by (simp add: r l1 us del: step.simps)
qed

theorem reselect_same_cwd_replays_witness:
  "wf demo_attached \<and> conns demo_attached 0 = Some demo_conn \<and> currentSession demo_conn = Some 0
   \<and> heap demo_attached 0 = Some demo_session \<and> alive demo_session
   \<and> payload_is_cwd (js ''/a'') = Some (cwd demo_session) \<and> cwd demo_session \<noteq> []
   \<and> conns (step payload_is_cwd (StatDone 0 True (SpawnOk 78))
               (step payload_is_cwd (Message 0 (50 # js ''/a'')) demo_attached)) 0 =
       Some \<lparr>wsOpen = True,
             sent = [Control Ready, Control (Spawned (js ''/a'') 77), Raw (js ''hello''),
                     Raw (js ''hello''), Control (Attached (js ''/a'') 77)],
             currentSession = Some 0,
             disposables = [Disposable 0 OnData 4, Disposable 0 OnExit 5]\<rparr>"
proof -
  have J: "payload_is_cwd (js ''/a'') = Some (cwd demo_session)"
    by (simp add: payload_is_cwd_def demo_attached_facts)
  have ne: "cwd demo_session \<noteq> []" by (simp add: demo_attached_facts)
  from reselect_same_cwd_replays[where J = payload_is_cwd and payload = "js ''/a''"
      and sp = "SpawnOk 78", OF wf_demo_attached demo_attached_facts(1,2) demo_heap
      demo_attached_facts(3) J ne]
  have "conns (step payload_is_cwd (StatDone 0 True (SpawnOk 78))
               (step payload_is_cwd (Message 0 (50 # js ''/a'')) demo_attached)) 0 =
     Some (demo_conn\<lparr>sent := sent demo_conn @
              (if wsOpen demo_conn
               then (if buffer demo_session = [] then [] else [Raw (buffer demo_session)])
                    @ [Control (Attached (cwd demo_session) (pid (pty demo_session)))]
               else []),
            disposables := [Disposable 0 OnData 4, Disposable 0 OnExit (Suc 4)],
            currentSession := Some 0\<rparr>)"
    unfolding Let_def demo_attached_facts list.size by blast
  then show ?thesis
    using wf_demo_attached demo_heap J ne demo_attached_facts(1,2,3)
    by (simp add: demo_conn_def demo_session_def js_def)
qed



subsection \<open>Detaching and closing\<close>

text \<open>
  C2. From every well-formed state and for every connection \<open>c\<close>: \<^verbatim>\<open>detach\<close>, the
  close of the socket, and a select frame naming a cwd (which detaches before anything
  else) change the sessions only by removing the listeners of \<open>c\<close>. The map
  \<^verbatim>\<open>sessions\<close> is unchanged, no session object is lost, and each keeps its process,
  the calls made on the process (the code has no call of \<^verbatim>\<open>kill\<close>, and none of
  \<^verbatim>\<open>write\<close> or \<^verbatim>\<open>resize\<close> is made here), its cwd, its buffer, its liveness
  flag and the listeners of every other connection.
\<close>

theorem detach_only_unsubscribes:
  assumes "wf st" and "conns st c \<noteq> None"
  shows "only_unsubscribes c st (detach c st)
       \<and> only_unsubscribes c st (step J (Close c) st)
       \<and> (\<forall>payload k. J payload = Some k \<and> k \<noteq> [] \<longrightarrow>
             only_unsubscribes c st (step J (Message c (50 # payload)) st))"
proof -
  from assms(2) obtain C where C: "conns st c = Some C" by auto
  have 1: "only_unsubscribes c st (detach c st)"
    by (rule only_unsubscribesI) (simp_all add: heap_detach_wf[OF assms(1) C])
  have "step J (Close c) st = on_close c st" using C by simp
  then have 2: "only_unsubscribes c st (step J (Close c) st)"
    by (intro only_unsubscribesI) (simp_all add: heap_on_close_wf[OF assms(1) C])
  have 3: "only_unsubscribes c st (step J (Message c (50 # payload)) st)"
    if "J payload = Some k" "k \<noteq> []" for payload k
    unfolding select_frame_suspends[where J = J and payload = payload and k = k, OF assms(2) that]
    by (rule only_unsubscribesI) (simp_all add: heap_detach_wf[OF assms(1) C])
  from 1 2 3 show ?thesis by blast
qed

theorem detach_only_unsubscribes_witness:
  "wf demo_attached \<and> conns demo_attached 0 \<noteq> None
   \<and> heap (step payload_is_cwd (Close 0) demo_attached) 0 = Some demo_session_alone
   \<and> sessions (step payload_is_cwd (Close 0) demo_attached) = sessions demo_attached"
proof -
  have ne: "conns demo_attached 0 \<noteq> None" by (simp add: demo_attached_facts)
  from detach_only_unsubscribes[OF wf_demo_attached ne, of payload_is_cwd]
  have u: "only_unsubscribes 0 demo_attached (step payload_is_cwd (Close 0) demo_attached)"
    by blast
  then have "case heap demo_attached 0 of
        None \<Rightarrow> heap (step payload_is_cwd (Close 0) demo_attached) 0 = None
      | Some S \<Rightarrow> (\<exists>S'. heap (step payload_is_cwd (Close 0) demo_attached) 0 = Some S'
                     \<and> unsubscribed_only 0 S S')"
    unfolding only_unsubscribes_def by blast
  then obtain S' where S': "heap (step payload_is_cwd (Close 0) demo_attached) 0 = Some S'"
    "unsubscribed_only 0 demo_session S'"
    unfolding demo_heap option.case by blast
  have "S' = demo_session_alone"
    using S'(2) by (cases S'; cases "pty S'")
      (simp add: unsubscribed_only_def demo_session_def demo_session_alone_def)
  moreover have "sessions (step payload_is_cwd (Close 0) demo_attached) = sessions demo_attached"
    using u unfolding only_unsubscribes_def by blast
  ultimately show ?thesis using S'(1) wf_demo_attached ne by blast
qed

subsection \<open>Exit of the process\<close>



subsection \<open>Resize frames\<close>




end
